theory Spec2Isabelle
  imports Complex_Main "HOL-Library.Word" "HOL-Library.Multiset"
begin

section \<open>JavaScript values and built-ins used by the downloader\<close>

text \<open>
  The downloader (\<^verbatim>\<open>src/services/downloader.ts\<close>) and the URL helper
  (\<^verbatim>\<open>src/utils/url.ts\<close>) are TypeScript. Strings are lists of code units
  (the 8-bit \<open>char\<close>, read as the Latin-1 range), a \<^verbatim>\<open>Uint8Array\<close> is a list of
  8-bit words, and a value that may be \<^verbatim>\<open>undefined\<close> is an \<open>option\<close>.
  A JavaScript \<^verbatim>\<open>number\<close> is \<open>jsnum\<close>: the finite values are exact rationals
  (the rounding of doubles and the sign of zero are not represented).
\<close>

type_synonym byte = "8 word"
type_synonym bytes = "byte list"

datatype jsnum = NaN | PosInf | NegInf | Fin rat

fun jsadd :: "jsnum \<Rightarrow> jsnum \<Rightarrow> jsnum" where
  "jsadd NaN _ = NaN"
| "jsadd _ NaN = NaN"
| "jsadd PosInf NegInf = NaN"
| "jsadd NegInf PosInf = NaN"
| "jsadd PosInf _ = PosInf"
| "jsadd _ PosInf = PosInf"
| "jsadd NegInf _ = NegInf"
| "jsadd _ NegInf = NegInf"
| "jsadd (Fin a) (Fin b) = Fin (a + b)"

fun jsmul :: "jsnum \<Rightarrow> jsnum \<Rightarrow> jsnum" where
  "jsmul NaN _ = NaN"
| "jsmul _ NaN = NaN"
| "jsmul (Fin a) (Fin b) = Fin (a * b)"
| "jsmul (Fin a) PosInf = (if a = 0 then NaN else if 0 < a then PosInf else NegInf)"
| "jsmul (Fin a) NegInf = (if a = 0 then NaN else if 0 < a then NegInf else PosInf)"
| "jsmul PosInf (Fin b) = (if b = 0 then NaN else if 0 < b then PosInf else NegInf)"
| "jsmul NegInf (Fin b) = (if b = 0 then NaN else if 0 < b then NegInf else PosInf)"
| "jsmul PosInf PosInf = PosInf"
| "jsmul NegInf NegInf = PosInf"
| "jsmul PosInf NegInf = NegInf"
| "jsmul NegInf PosInf = NegInf"

text \<open>Truthiness of a number (\<^verbatim>\<open>x || y\<close>) and of a possibly undefined string.\<close>

definition truthyNum :: "jsnum \<Rightarrow> bool" where
  "truthyNum x = (x \<noteq> NaN \<and> x \<noteq> Fin 0)"

definition truthy :: "string option \<Rightarrow> bool" where
  "truthy v = (case v of None \<Rightarrow> False | Some s \<Rightarrow> s \<noteq> [])"

subsection \<open>String methods\<close>

definition isWhiteSpace :: "char \<Rightarrow> bool" where
  "isWhiteSpace c =
     (c = CHR 0x09 \<or> c = CHR 0x0A \<or> c = CHR 0x0B \<or> c = CHR 0x0C \<or> c = CHR 0x0D
      \<or> c = CHR 0x20 \<or> c = CHR 0xA0)"

definition trimStart :: "string \<Rightarrow> string" where
  "trimStart s = dropWhile isWhiteSpace s"

definition trim :: "string \<Rightarrow> string" where
  "trim s = rev (dropWhile isWhiteSpace (rev (dropWhile isWhiteSpace s)))"

definition startsWith :: "string \<Rightarrow> string \<Rightarrow> bool" where
  "startsWith s p = (take (length p) s = p)"

fun includesStr :: "string \<Rightarrow> string \<Rightarrow> bool" where
  "includesStr [] p = (p = [])"
| "includesStr (c # cs) p = (startsWith (c # cs) p \<or> includesStr cs p)"

fun splitOn :: "char \<Rightarrow> string \<Rightarrow> string list" where
  "splitOn sep [] = [[]]"
| "splitOn sep (c # cs) =
     (if c = sep then [] # splitOn sep cs
      else (case splitOn sep cs of [] \<Rightarrow> [[c]] | x # xs \<Rightarrow> (c # x) # xs))"

text \<open>\<^verbatim>\<open>line.split(':')[1]\<close>: the second piece, \<^verbatim>\<open>undefined\<close> when there is none.\<close>

definition secondField :: "string \<Rightarrow> string option" where
  "secondField line = (case splitOn CHR '':'' line of _ # x # _ \<Rightarrow> Some x | _ \<Rightarrow> None)"

subsection \<open>\<^verbatim>\<open>parseInt\<close> and \<^verbatim>\<open>parseFloat\<close>\<close>

definition digitVal :: "char \<Rightarrow> nat option" where
  "digitVal c =
     (let n = (of_char c :: nat) in
      if 48 \<le> n \<and> n \<le> 57 then Some (n - 48)
      else if 97 \<le> n \<and> n \<le> 122 then Some (n - 87)
      else if 65 \<le> n \<and> n \<le> 90 then Some (n - 55)
      else None)"

definition isDigitIn :: "nat \<Rightarrow> char \<Rightarrow> bool" where
  "isDigitIn R c = (case digitVal c of Some d \<Rightarrow> d < R | None \<Rightarrow> False)"

definition digitsValue :: "nat \<Rightarrow> string \<Rightarrow> nat" where
  "digitsValue R ds =
     foldl (\<lambda>acc c. acc * R + (case digitVal c of Some d \<Rightarrow> d | None \<Rightarrow> 0)) 0 ds"

text \<open>
  \<^verbatim>\<open>parseInt(str, radix)\<close> after ECMAScript: leading white space is skipped, a sign is
  read, a radix of \<^verbatim>\<open>undefined\<close> (or 0) means 10, a \<^verbatim>\<open>0x\<close> prefix is stripped and
  selects radix 16 when the radix is undefined or 16, and the longest prefix of
  radix digits is the value; no digit gives \<^verbatim>\<open>NaN\<close>.
\<close>

definition parseInt :: "string \<Rightarrow> nat option \<Rightarrow> jsnum" where
  "parseInt str radix =
     (let s0 = trimStart str;
          neg = startsWith s0 ''-'';
          s1 = (if startsWith s0 ''+'' \<or> startsWith s0 ''-'' then drop 1 s0 else s0);
          R0 = (case radix of None \<Rightarrow> 0 | Some r \<Rightarrow> r)
      in if R0 \<noteq> 0 \<and> (R0 < 2 \<or> 36 < R0) then NaN
         else
           (let hex = ((R0 = 0 \<or> R0 = 16) \<and> (startsWith s1 ''0x'' \<or> startsWith s1 ''0X''));
                R = (if hex then 16 else if R0 = 0 then 10 else R0);
                s2 = (if hex then drop 2 s1 else s1);
                Z = takeWhile (isDigitIn R) s2
            in if Z = [] then NaN
               else Fin (of_int ((if neg then - 1 else 1) * int (digitsValue R Z)))))"

definition exponentPart :: "string \<Rightarrow> int" where
  "exponentPart s =
     (if startsWith s ''e'' \<or> startsWith s ''E'' then
        (let s1 = drop 1 s;
             neg = startsWith s1 ''-'';
             s2 = (if startsWith s1 ''+'' \<or> startsWith s1 ''-'' then drop 1 s1 else s1);
             ds = takeWhile (isDigitIn 10) s2
         in if ds = [] then 0
            else (if neg then - 1 else 1) * int (digitsValue 10 ds))
      else 0)"

text \<open>
  \<^verbatim>\<open>parseFloat(str)\<close>: the longest prefix that is a decimal literal
  (sign, \<^verbatim>\<open>Infinity\<close>, or digits with an optional fraction and exponent).
\<close>

definition parseFloat :: "string \<Rightarrow> jsnum" where
  "parseFloat str =
     (let s0 = trimStart str;
          neg = startsWith s0 ''-'';
          s1 = (if startsWith s0 ''+'' \<or> startsWith s0 ''-'' then drop 1 s0 else s0)
      in if startsWith s1 ''Infinity'' then (if neg then NegInf else PosInf)
         else
           (let ip = takeWhile (isDigitIn 10) s1;
                r1 = dropWhile (isDigitIn 10) s1;
                hasDot = startsWith r1 ''.'';
                fp = (if hasDot then takeWhile (isDigitIn 10) (drop 1 r1) else []);
                r2 = (if hasDot then dropWhile (isDigitIn 10) (drop 1 r1) else r1)
            in if ip = [] \<and> fp = [] then NaN
               else
                 (let mant = (of_nat (digitsValue 10 (ip @ fp)) :: rat) / 10 ^ length fp;
                      ex = exponentPart r2;
                      scale = (if ex < 0 then 1 / 10 ^ nat (- ex) else 10 ^ nat ex)
                  in Fin ((if neg then - 1 else 1) * mant * scale))))"

text \<open>Storing a number into a \<^verbatim>\<open>Uint8Array\<close> element (\<^verbatim>\<open>ToUint8\<close>).\<close>

definition toUint8 :: "jsnum \<Rightarrow> byte" where
  "toUint8 x = (case x of Fin r \<Rightarrow> of_int (if 0 \<le> r then \<lfloor>r\<rfloor> else \<lceil>r\<rceil>) | _ \<Rightarrow> 0)"

subsection \<open>\<^verbatim>\<open>encodeURIComponent\<close>\<close>

definition hexDigit :: "nat \<Rightarrow> char" where
  "hexDigit n = (if n < 10 then char_of (48 + n) else char_of (55 + n))"

definition percentByte :: "nat \<Rightarrow> string" where
  "percentByte b = [CHR ''%'', hexDigit (b div 16), hexDigit (b mod 16)]"

definition isUnreserved :: "char \<Rightarrow> bool" where
  "isUnreserved c =
     (let n = (of_char c :: nat) in
      (48 \<le> n \<and> n \<le> 57) \<or> (65 \<le> n \<and> n \<le> 90) \<or> (97 \<le> n \<and> n \<le> 122)
      \<or> c \<in> set ''-_.!~*'()'')"

definition encodeURIComponent :: "string \<Rightarrow> string" where
  "encodeURIComponent s =
     concat (map (\<lambda>c. let n = (of_char c :: nat) in
                       if isUnreserved c then [c]
                       else if n < 128 then percentByte n
                       else percentByte (192 + n div 64) @ percentByte (128 + n mod 64)) s)"

definition fetchUrl :: "bool \<Rightarrow> string \<Rightarrow> string" where
  "fetchUrl useProxy u =
     (if useProxy then ''https://corsproxy.io/?'' @ encodeURIComponent u else u)"

section \<open>Data model (\<^verbatim>\<open>types.ts\<close>)\<close>

record EncryptionData =
  "method" :: string
  uri :: "string option"
  iv :: "bytes option"

record Segment =
  url :: string
  index :: nat
  encryption :: "EncryptionData option"
  seqId :: "jsnum option"
  isInitSegment :: "bool option"

record StreamInfo =
  duration :: jsnum
  segmentCount :: nat
  targetDuration :: jsnum
  isEncrypted :: bool

datatype error =
    ManifestFetchFailed
  | NotVariantPlaylist
  | NoSegmentsFound
  | TransportError
  | SegmentFetchFailed nat
  | KeyFetchFailed string
  | KeyImportFailed
  | DecryptionFailed
  | Aborted

section \<open>\<^verbatim>\<open>resolveUrl\<close> (\<^verbatim>\<open>utils/url.ts\<close>)\<close>

text \<open>
  The platform's \<^verbatim>\<open>URL\<close> class is a parameter: \<open>urlParse s\<close> is
  \<^verbatim>\<open>new URL(s)\<close>, giving the protocol and the href or \<open>None\<close> when the constructor
  throws, and \<open>urlResolve r b\<close> is \<^verbatim>\<open>new URL(r, b).toString()\<close>.
\<close>

record urlapi =
  urlParse :: "string \<Rightarrow> (string \<times> string) option"
  urlResolve :: "string \<Rightarrow> string \<Rightarrow> string option"

definition toLower :: "char \<Rightarrow> char" where
  "toLower c = (let n = (of_char c :: nat) in if 65 \<le> n \<and> n \<le> 90 then char_of (n + 32) else c)"

text \<open>The test \<^verbatim>\<open>/^https?:\/\//i\<close>.\<close>

definition isAbsoluteHttp :: "string \<Rightarrow> bool" where
  "isAbsoluteHttp s =
     (let l = map toLower s in startsWith l ''http://'' \<or> startsWith l ''https://'')"

definition resolveUrl :: "urlapi \<Rightarrow> string \<Rightarrow> string option \<Rightarrow> string" where
  "resolveUrl U baseUrl relativeUrl =
     (case relativeUrl of
        None \<Rightarrow> []
      | Some rel \<Rightarrow>
          if rel = [] then []
          else if isAbsoluteHttp rel then rel
          else (case urlParse U baseUrl of
                  None \<Rightarrow> rel
                | Some (protocol, href) \<Rightarrow>
                    if startsWith rel ''//'' then protocol @ rel
                    else (case urlResolve U rel href of None \<Rightarrow> rel | Some u \<Rightarrow> u)))"

section \<open>Manifest parsing (\<^verbatim>\<open>downloader.ts\<close>)\<close>

subsection \<open>\<^verbatim>\<open>parseAttributes\<close>\<close>

text \<open>
  The regular expression \<^verbatim>\<open>/([A-Z0-9-]+)=("([^"]*)"|([^,]*))/g\<close>, run by
  \<^verbatim>\<open>regex.exec\<close> in a loop. \<open>matchValue\<close> is the second group, tried at the
  text after \<^verbatim>\<open>=\<close>: the quoted alternative first, the unquoted one when there is
  no closing quote. Its first component is \<^verbatim>\<open>match[3] || match[4]\<close>, so an empty
  quoted value is \<^verbatim>\<open>undefined\<close>; its second is the text after the match.
\<close>

definition isKeyChar :: "char \<Rightarrow> bool" where
  "isKeyChar c =
     (let n = (of_char c :: nat) in
      (65 \<le> n \<and> n \<le> 90) \<or> (48 \<le> n \<and> n \<le> 57) \<or> c = CHR ''-'')"

definition matchValue :: "string \<Rightarrow> string option \<times> string" where
  "matchValue s =
     (let unquoted = (Some (takeWhile (\<lambda>c. c \<noteq> CHR '','') s), dropWhile (\<lambda>c. c \<noteq> CHR '','') s)
      in case s of
           [] \<Rightarrow> unquoted
         | c # t \<Rightarrow>
             if c = CHR 0x22 then
               (case dropWhile (\<lambda>c. c \<noteq> CHR 0x22) t of
                  [] \<Rightarrow> unquoted
                | _ # rest \<Rightarrow>
                    (let content = takeWhile (\<lambda>c. c \<noteq> CHR 0x22) t
                     in (if content \<noteq> [] then Some content else None, rest)))
             else unquoted)"

definition matchHere :: "string \<Rightarrow> (string \<times> string option \<times> string) option" where
  "matchHere s =
     (let k = takeWhile isKeyChar s; r = dropWhile isKeyChar s
      in if k \<noteq> [] \<and> startsWith r ''=''
         then (case matchValue (drop 1 r) of (v, rest) \<Rightarrow> Some (k, v, rest))
         else None)"

fun regexExec :: "string \<Rightarrow> (string \<times> string option \<times> string) option" where
  "regexExec [] = None"
| "regexExec (c # cs) =
     (case matchHere (c # cs) of Some m \<Rightarrow> Some m | None \<Rightarrow> regexExec cs)"

function parseAttributesLoop ::
  "string \<Rightarrow> (string \<Rightarrow> string option) \<Rightarrow> (string \<Rightarrow> string option)" where
  "parseAttributesLoop s result =
     (case regexExec s of
        None \<Rightarrow> result
      | Some (k, v, rest) \<Rightarrow> parseAttributesLoop rest (result(k := v)))"
  by pat_completeness auto
termination
proof (relation "measure (\<lambda>(s, result). length s)")
  show "wf (measure (\<lambda>(s, result). length s))" by simp
next
  fix s :: string and result :: "string \<Rightarrow> string option" and x2 k y v rest
  assume ex: "regexExec s = Some x2" and x2: "(k, y) = x2" and y: "(v, rest) = y"
  have mv: "length (snd (matchValue t)) \<le> length t" for t
  proof (cases t)
    case Nil
    then show ?thesis by (simp add: matchValue_def)
  next
    case (Cons c u)
    have d: "length (dropWhile P u) \<le> length u" for P :: "char \<Rightarrow> bool"
      by (rule length_dropWhile_le)
    have d': "dropWhile (\<lambda>c. c \<noteq> CHR 0x22) u = a # rest' \<Longrightarrow> length rest' \<le> Suc (length u)"
      for a rest'
      using d [of "\<lambda>c. c \<noteq> CHR 0x22"] by simp
    show ?thesis
      using d [of "\<lambda>c. c \<noteq> CHR '',''"] d'
      by (auto simp: matchValue_def Cons Let_def split: list.splits)
  qed
  have mh: "matchHere t = Some (k', v', rest') \<Longrightarrow> length rest' < length t" for t k' v' rest'
  proof -
    assume a: "matchHere t = Some (k', v', rest')"
    let ?r = "dropWhile isKeyChar t"
    from a have k: "takeWhile isKeyChar t \<noteq> []" and r: "startsWith ?r ''=''"
      and m: "matchValue (drop 1 ?r) = (v', rest')"
      by (auto simp: matchHere_def Let_def split: if_splits prod.splits)
    have "?r \<noteq> []"
    proof
      assume e: "?r = []"
      from r show False unfolding startsWith_def e by simp
    qed
    then have "length (drop 1 ?r) < length ?r" by simp
    moreover have "length ?r \<le> length t" by (rule length_dropWhile_le)
    moreover have "length rest' \<le> length (drop 1 ?r)" using mv [of "drop 1 ?r"] m by simp
    ultimately show ?thesis by linarith
  qed
  have re: "regexExec t = Some (k', v', rest') \<Longrightarrow> length rest' < length t" for t k' v' rest'
  proof (induction t)
    case Nil
    then show ?case by simp
  next
    case (Cons c cs)
    then show ?case
      using mh [of "c # cs" k' v' rest'] by (auto split: option.splits)
  qed
  from ex x2 y have "regexExec s = Some (k, v, rest)" by simp
  then show "((rest, result(k := v)), (s, result)) \<in> measure (\<lambda>(s, result). length s)"
    using re by simp
qed

definition parseAttributes :: "string \<Rightarrow> (string \<Rightarrow> string option)" where
  "parseAttributes line = parseAttributesLoop line (\<lambda>_. None)"

subsection \<open>\<^verbatim>\<open>hexToBytes\<close>\<close>

text \<open>
  The array has \<open>length cleanHex div 2\<close> elements; for an odd length the last store
  of the loop is out of range and ignored.
\<close>

definition hexToBytes :: "string \<Rightarrow> bytes" where
  "hexToBytes hex =
     (let cleanHex = (if startsWith hex ''0x'' then drop 2 hex else hex)
      in map (\<lambda>k. toUint8 (parseInt (take 2 (drop (2 * k) cleanHex)) (Some 16)))
             [0 ..< length cleanHex div 2])"

subsection \<open>The line loop of \<^verbatim>\<open>fetchManifest\<close>\<close>

record pstate =
  st_segments :: "Segment list"
  st_targetDuration :: jsnum
  st_mediaSequence :: jsnum
  st_currentKey :: "EncryptionData option"
  st_isEncrypted :: bool
  st_segmentIndex :: nat

definition initState :: pstate where
  "initState =
     \<lparr>st_segments = [], st_targetDuration = Fin 0, st_mediaSequence = Fin 0,
      st_currentKey = None, st_isEncrypted = False, st_segmentIndex = 0\<rparr>"

definition numArg :: "(string \<Rightarrow> jsnum) \<Rightarrow> string option \<Rightarrow> jsnum" where
  "numArg f v = (case v of None \<Rightarrow> NaN | Some s \<Rightarrow> f s)"

definition stepTargetDuration :: "string \<Rightarrow> pstate \<Rightarrow> pstate" where
  "stepTargetDuration line st =
     (if startsWith line ''#EXT-X-TARGETDURATION:''
      then st\<lparr>st_targetDuration := numArg parseFloat (secondField line)\<rparr>
      else st)"

definition stepMediaSequence :: "string \<Rightarrow> pstate \<Rightarrow> pstate" where
  "stepMediaSequence line st =
     (if startsWith line ''#EXT-X-MEDIA-SEQUENCE:''
      then st\<lparr>st_mediaSequence := numArg (\<lambda>s. parseInt s None) (secondField line)\<rparr>
      else st)"

definition stepKey :: "urlapi \<Rightarrow> string \<Rightarrow> string \<Rightarrow> pstate \<Rightarrow> pstate" where
  "stepKey U baseUrl line st =
     (if startsWith line ''#EXT-X-KEY:'' then
        (let attrs = parseAttributes (drop 11 line)
         in case attrs ''METHOD'' of
              None \<Rightarrow> st\<lparr>st_currentKey := None\<rparr>
            | Some m \<Rightarrow>
                if m \<noteq> [] \<and> m \<noteq> ''NONE'' then
                  st\<lparr>st_isEncrypted := True,
                     st_currentKey :=
                       Some \<lparr>method = m,
                             uri = Some (resolveUrl U baseUrl (attrs ''URI'')),
                             iv = (if truthy (attrs ''IV'')
                                   then map_option hexToBytes (attrs ''IV'') else None)\<rparr>\<rparr>
                else st\<lparr>st_currentKey := None\<rparr>)
      else st)"

definition stepMap :: "urlapi \<Rightarrow> string \<Rightarrow> string \<Rightarrow> pstate \<Rightarrow> pstate" where
  "stepMap U baseUrl line st =
     (if startsWith line ''#EXT-X-MAP:'' then
        (let attrs = parseAttributes (drop 11 line)
         in if truthy (attrs ''URI'') then
              st\<lparr>st_segments := st_segments st @
                    [\<lparr>url = resolveUrl U baseUrl (attrs ''URI''),
                      index = st_segmentIndex st,
                      encryption = st_currentKey st,
                      seqId = Some (jsadd (st_mediaSequence st)
                                          (Fin (of_nat (length (st_segments st))))),
                      isInitSegment = Some True\<rparr>],
                 st_segmentIndex := Suc (st_segmentIndex st)\<rparr>
            else st)
      else st)"

definition stepSegment :: "urlapi \<Rightarrow> string \<Rightarrow> string \<Rightarrow> pstate \<Rightarrow> pstate" where
  "stepSegment U baseUrl line st =
     (if \<not> startsWith line ''#'' then
        st\<lparr>st_segments := st_segments st @
              [\<lparr>url = resolveUrl U baseUrl (Some line),
                index = st_segmentIndex st,
                encryption = st_currentKey st,
                seqId = Some (jsadd (st_mediaSequence st)
                                    (Fin (of_nat (length (st_segments st))))),
                isInitSegment = None\<rparr>],
           st_segmentIndex := Suc (st_segmentIndex st)\<rparr>
      else st)"

text \<open>One iteration of the \<^verbatim>\<open>for\<close> loop: the five \<^verbatim>\<open>if\<close> statements in order.\<close>

definition parseLine :: "urlapi \<Rightarrow> string \<Rightarrow> pstate \<Rightarrow> string \<Rightarrow> pstate" where
  "parseLine U baseUrl st raw =
     (let line = trim raw
      in if line = [] then st
         else stepSegment U baseUrl line
                (stepMap U baseUrl line
                  (stepKey U baseUrl line
                    (stepMediaSequence line
                      (stepTargetDuration line st)))))"

definition scanLines :: "urlapi \<Rightarrow> string \<Rightarrow> string list \<Rightarrow> pstate \<Rightarrow> pstate" where
  "scanLines U baseUrl ls st = foldl (parseLine U baseUrl) st ls"

text \<open>Lines 60 to 139 of \<^verbatim>\<open>fetchManifest\<close>: everything after the text has arrived.\<close>

definition parseManifestText ::
  "urlapi \<Rightarrow> string \<Rightarrow> string \<Rightarrow> error + (Segment list \<times> StreamInfo)" where
  "parseManifestText U baseUrl text =
     (if includesStr text ''#EXT-X-STREAM-INF'' then Inl NotVariantPlaylist
      else
        (let st = scanLines U baseUrl (splitOn CHR 0x0A text) initState;
             segs = st_segments st
         in if length segs = 0 then Inl NoSegmentsFound
            else Inr (segs,
                      \<lparr>duration = jsmul (Fin (of_nat (length segs))) (st_targetDuration st),
                       segmentCount = length segs,
                       targetDuration = st_targetDuration st,
                       isEncrypted = st_isEncrypted st\<rparr>)))"

datatype 'a fetch_result = Threw | Response bool 'a

text \<open>
  \<^verbatim>\<open>fetchManifest\<close>: \<open>net\<close> is the network, giving for the fetched address either a
  rejected promise or a response with its \<^verbatim>\<open>ok\<close> flag and its text.
\<close>

definition fetchManifest ::
  "(string \<Rightarrow> string fetch_result) \<Rightarrow> urlapi \<Rightarrow> string \<Rightarrow> bool
     \<Rightarrow> error + (Segment list \<times> StreamInfo)" where
  "fetchManifest net U baseUrl useProxy =
     (case net (fetchUrl useProxy baseUrl) of
        Threw \<Rightarrow> Inl TransportError
      | Response ok text \<Rightarrow>
          if \<not> ok then Inl ManifestFetchFailed else parseManifestText U baseUrl text)"

subsection \<open>A fragment of the platform's \<^verbatim>\<open>URL\<close> class\<close>

text \<open>
  \<open>basicURL\<close> follows the URL standard on a small fragment, enough to run the parser
  on ordinary playlists: an \<^verbatim>\<open>http\<close> or \<^verbatim>\<open>https\<close> base whose host is made of
  lower-case letters and dots and whose path has only unreserved characters and
  slashes, without query, fragment or dot segments; and a reference of the same
  path characters. There the standard keeps the base as it is and replaces the
  last path segment by the reference (or the whole path, when the reference starts
  with a slash). Outside the fragment \<open>basicURL\<close> answers \<open>None\<close>; the general
  theorems below hold for every \<open>urlapi\<close> and do not depend on it.
\<close>

definition isPathChar :: "char \<Rightarrow> bool" where
  "isPathChar c =
     (let n = (of_char c :: nat) in
      (48 \<le> n \<and> n \<le> 57) \<or> (65 \<le> n \<and> n \<le> 90) \<or> (97 \<le> n \<and> n \<le> 122)
      \<or> c \<in> set ''-._~/'')"

definition isHostChar :: "char \<Rightarrow> bool" where
  "isHostChar c = (let n = (of_char c :: nat) in (97 \<le> n \<and> n \<le> 122) \<or> c = CHR ''.'')"

definition hasDotSegment :: "string \<Rightarrow> bool" where
  "hasDotSegment p = list_ex (\<lambda>seg. seg = ''.'' \<or> seg = ''..'') (splitOn CHR ''/'' p)"

definition dirName :: "string \<Rightarrow> string" where
  "dirName path = rev (dropWhile (\<lambda>c. c \<noteq> CHR ''/'') (rev path))"

definition basicParse :: "string \<Rightarrow> (string \<times> string \<times> string) option" where
  "basicParse s =
     (let proto = (if startsWith s ''https://'' then Some ''https:''
                   else if startsWith s ''http://'' then Some ''http:'' else None)
      in case proto of
           None \<Rightarrow> None
         | Some pr \<Rightarrow>
             (let rest = drop (length pr + 2) s;
                  host = takeWhile (\<lambda>c. c \<noteq> CHR ''/'') rest;
                  path = dropWhile (\<lambda>c. c \<noteq> CHR ''/'') rest
              in if host \<noteq> [] \<and> list_all isHostChar host \<and> list_all isPathChar path
                    \<and> \<not> hasDotSegment path
                 then Some (pr, host, if path = [] then ''/'' else path)
                 else None))"

definition basicURL :: urlapi where
  "basicURL =
     \<lparr>urlParse = (\<lambda>s. case basicParse s of
                         None \<Rightarrow> None
                       | Some (pr, host, path) \<Rightarrow> Some (pr, pr @ ''//'' @ host @ path)),
      urlResolve = (\<lambda>rel base.
         case basicParse base of
           None \<Rightarrow> None
         | Some (pr, host, path) \<Rightarrow>
             if rel \<noteq> [] \<and> list_all isPathChar rel \<and> \<not> hasDotSegment rel
                \<and> \<not> startsWith rel ''//''
             then Some (pr @ ''//'' @ host @
                        (if startsWith rel ''/'' then rel else dirName path @ rel))
             else None)\<rparr>"

section \<open>Initialization vectors (\<^verbatim>\<open>sequenceToIV\<close>)\<close>

text \<open>
  A \<^verbatim>\<open>DataView\<close> over a fresh 16-byte buffer. \<open>beBytes n v\<close> are the \<open>n\<close> low
  bytes of \<open>v\<close>, most significant first, which is what the big-endian setters
  store. \<^verbatim>\<open>BigInt(seq)\<close> throws for a number that is not an integer; the
  \<^verbatim>\<open>catch\<close> branch then writes the sequence number as 32 bits at offset 12.
  Both writes are inside the buffer.
\<close>

definition writeAt :: "bytes \<Rightarrow> nat \<Rightarrow> bytes \<Rightarrow> bytes" where
  "writeAt buf off src = take off buf @ src @ drop (off + length src) buf"

fun beBytes :: "nat \<Rightarrow> nat \<Rightarrow> bytes" where
  "beBytes 0 v = []"
| "beBytes (Suc n) v = beBytes n (v div 256) @ [of_nat v]"

definition BigInt :: "jsnum \<Rightarrow> int option" where
  "BigInt x = (case x of Fin r \<Rightarrow> if r = of_int \<lfloor>r\<rfloor> then Some \<lfloor>r\<rfloor> else None | _ \<Rightarrow> None)"

definition toUint32 :: "jsnum \<Rightarrow> nat" where
  "toUint32 x =
     (case x of Fin r \<Rightarrow> nat ((if 0 \<le> r then \<lfloor>r\<rfloor> else \<lceil>r\<rceil>) mod 2 ^ 32) | _ \<Rightarrow> 0)"

definition setBigUint64 :: "bytes \<Rightarrow> nat \<Rightarrow> int \<Rightarrow> bytes" where
  "setBigUint64 buf off v = writeAt buf off (beBytes 8 (nat (v mod 2 ^ 64)))"

definition setUint32 :: "bytes \<Rightarrow> nat \<Rightarrow> jsnum \<Rightarrow> bytes" where
  "setUint32 buf off x = writeAt buf off (beBytes 4 (toUint32 x))"

definition sequenceToIV :: "jsnum \<Rightarrow> bytes" where
  "sequenceToIV seq =
     (let buffer = replicate 16 0
      in case BigInt seq of
           Some bigSeq \<Rightarrow> setBigUint64 buffer 8 bigSeq
         | None \<Rightarrow> setUint32 buffer 12 seq)"

section \<open>Segment download (\<^verbatim>\<open>downloadSegments\<close>)\<close>

text \<open>
  The network, the WebCrypto functions and the timing are the environment of a
  download, the record \<open>world\<close>. A task is the asynchronous function run for one
  segment of a batch; it is named by the position of its segment in the list.
  \<open>segFetch p u\<close> and \<open>keyFetch p u\<close> are what \<^verbatim>\<open>fetch\<close> gives task \<open>p\<close> for the
  address \<open>u\<close> (a rejected promise or a response with its \<^verbatim>\<open>ok\<close> flag and body),
  \<open>importKey\<close> and \<open>aesCbcDecrypt\<close> are \<^verbatim>\<open>crypto.subtle\<close> (\<open>None\<close> when they
  reject). Time is a counter of instants: \<open>latency W p\<close> is how long task \<open>p\<close> runs
  from the start of its batch until it settles, and \<open>abortAt W\<close> is the instant at
  which \<^verbatim>\<open>abort()\<close> is called, if ever. The flag \<^verbatim>\<open>signal.aborted\<close> read at instant
  \<open>t\<close> is \<open>aborted W t\<close>. A batch that starts at \<open>t\<close> ends when its slowest task
  has settled, and the next batch starts one instant later, so that a call of
  \<^verbatim>\<open>abort()\<close> can fall between the two.
\<close>

type_synonym CryptoKey = bytes

record world =
  segFetch :: "nat \<Rightarrow> string \<Rightarrow> bytes fetch_result"
  keyFetch :: "nat \<Rightarrow> string \<Rightarrow> bytes fetch_result"
  importKey :: "bytes \<Rightarrow> CryptoKey option"
  aesCbcDecrypt :: "CryptoKey \<Rightarrow> bytes \<Rightarrow> bytes \<Rightarrow> bytes option"
  latency :: "nat \<Rightarrow> nat"
  abortAt :: "nat option"

definition aborted :: "world \<Rightarrow> nat \<Rightarrow> bool" where
  "aborted W t = (case abortAt W of None \<Rightarrow> False | Some a \<Rightarrow> a \<le> t)"

type_synonym keycache = "string \<Rightarrow> CryptoKey option"

text \<open>
  The first step of \<^verbatim>\<open>decryptSegment\<close>: the key from the cache, or fetched,
  imported and cached.
\<close>

definition resolveKey ::
  "world \<Rightarrow> bool \<Rightarrow> nat \<Rightarrow> string \<Rightarrow> keycache \<Rightarrow> (error + CryptoKey) \<times> keycache" where
  "resolveKey W useProxy p u cache =
     (case cache u of
        Some key \<Rightarrow> (Inr key, cache)
      | None \<Rightarrow>
          (case keyFetch W p (fetchUrl useProxy u) of
             Threw \<Rightarrow> (Inl TransportError, cache)
           | Response ok keyBuffer \<Rightarrow>
               if \<not> ok then (Inl (KeyFetchFailed u), cache)
               else (case importKey W keyBuffer of
                       None \<Rightarrow> (Inl KeyImportFailed, cache)
                     | Some key \<Rightarrow> (Inr key, cache(u := Some key)))))"

definition decryptSegment ::
  "world \<Rightarrow> bool \<Rightarrow> nat \<Rightarrow> bytes \<Rightarrow> EncryptionData \<Rightarrow> jsnum \<Rightarrow> keycache
     \<Rightarrow> (error + bytes) \<times> keycache" where
  "decryptSegment W useProxy p data enc seq cache =
     (if \<not> truthy (uri enc) then (Inr data, cache)
      else
        (case resolveKey W useProxy p (case uri enc of Some u \<Rightarrow> u | None \<Rightarrow> []) cache of
           (Inl e, cache') \<Rightarrow> (Inl e, cache')
         | (Inr key, cache') \<Rightarrow>
             (let v = (case iv enc of Some x \<Rightarrow> x | None \<Rightarrow> sequenceToIV seq)
              in case aesCbcDecrypt W key v data of
                   None \<Rightarrow> (Inl DecryptionFailed, cache')
                 | Some decrypted \<Rightarrow> (Inr decrypted, cache'))))"

text \<open>
  \<^verbatim>\<open>seg.seqId || seg.index\<close>, and the body of the \<^verbatim>\<open>try\<close> block of one task up to
  the value it stores: the error it throws or the bytes, with the key cache.
\<close>

definition seqArg :: "Segment \<Rightarrow> jsnum" where
  "seqArg seg =
     (case seqId seg of
        Some x \<Rightarrow> if truthyNum x then x else Fin (of_nat (index seg))
      | None \<Rightarrow> Fin (of_nat (index seg)))"

definition runTask ::
  "world \<Rightarrow> bool \<Rightarrow> nat \<Rightarrow> Segment \<Rightarrow> keycache \<Rightarrow> (error + bytes) \<times> keycache" where
  "runTask W useProxy p seg cache =
     (case segFetch W p (fetchUrl useProxy (url seg)) of
        Threw \<Rightarrow> (Inl TransportError, cache)
      | Response ok body \<Rightarrow>
          if \<not> ok then (Inl (SegmentFetchFailed (index seg)), cache)
          else (case encryption seg of
                  None \<Rightarrow> (Inr body, cache)
                | Some enc \<Rightarrow>
                    if method enc = ''AES-128'' \<and> truthy (uri enc)
                    then decryptSegment W useProxy p body enc (seqArg seg) cache
                    else (Inr body, cache)))"

text \<open>
  The assignment \<^verbatim>\<open>results[seg.index] = data\<close> on a JavaScript array: an index
  beyond the end extends the array with holes.
\<close>

definition storeAt :: "'a option list \<Rightarrow> nat \<Rightarrow> 'a \<Rightarrow> 'a option list" where
  "storeAt arr i v =
     (if i < length arr then arr[i := Some v]
      else arr @ replicate (i - length arr) None @ [Some v])"

text \<open>
  \<open>settle\<close> runs the tasks of one batch in the order in which they settle. A task
  that succeeds stores its bytes. A task that fails reads \<^verbatim>\<open>signal.aborted\<close> in its
  \<^verbatim>\<open>catch\<close> block: when it is set the error is swallowed and the task resolves,
  otherwise the error is thrown again, \<^verbatim>\<open>Promise.all\<close> rejects with it and so does
  \<^verbatim>\<open>downloadSegments\<close>. The progress callback is not part of the result and is
  left out.
\<close>

record dstate =
  results :: "bytes option list"
  keyCache :: keycache
  downloadedCount :: nat

fun settle ::
  "world \<Rightarrow> bool \<Rightarrow> nat \<Rightarrow> (nat \<times> Segment) list \<Rightarrow> dstate \<Rightarrow> error + dstate" where
  "settle W useProxy t0 [] st = Inr st"
| "settle W useProxy t0 ((p, seg) # rest) st =
     (case runTask W useProxy p seg (keyCache st) of
        (Inr data, cache') \<Rightarrow>
          settle W useProxy t0 rest
            (st\<lparr>results := storeAt (results st) (index seg) data,
                keyCache := cache',
                downloadedCount := Suc (downloadedCount st)\<rparr>)
      | (Inl e, cache') \<Rightarrow>
          if aborted W (t0 + latency W p)
          then settle W useProxy t0 rest (st\<lparr>keyCache := cache'\<rparr>)
          else Inl e)"

text \<open>
  The \<^verbatim>\<open>for\<close> loop over the batches. The tasks of a batch settle by increasing
  latency, those of equal latency in the order of the batch.
\<close>

definition BATCH_SIZE :: nat where
  "BATCH_SIZE = 5"

definition batchSpan :: "world \<Rightarrow> nat \<Rightarrow> nat \<Rightarrow> nat" where
  "batchSpan W i m = fold max (map (latency W) [i ..< i + m]) 0"

function batchLoop ::
  "world \<Rightarrow> bool \<Rightarrow> Segment list \<Rightarrow> nat \<Rightarrow> nat \<Rightarrow> dstate \<Rightarrow> error + bytes option list" where
  "batchLoop W useProxy segments i t st =
     (if i < length segments then
        if aborted W t then Inl Aborted
        else
          (let batch = take BATCH_SIZE (drop i segments);
               tasks = zip [i ..< i + length batch] batch
           in case settle W useProxy t (sort_key (\<lambda>(p, seg). latency W p) tasks) st of
                Inl e \<Rightarrow> Inl e
              | Inr st' \<Rightarrow>
                  batchLoop W useProxy segments (i + BATCH_SIZE)
                    (Suc (t + batchSpan W i (length batch))) st')
      else Inr (results st))"
  by pat_completeness auto
termination
  by (relation "measure (\<lambda>(W, useProxy, segments, i, t, st). length segments - i)")
     (auto simp: BATCH_SIZE_def)

declare batchLoop.simps [simp del]

definition downloadSegments ::
  "world \<Rightarrow> bool \<Rightarrow> Segment list \<Rightarrow> error + bytes option list" where
  "downloadSegments W useProxy segments =
     batchLoop W useProxy segments 0 0
       \<lparr>results = replicate (length segments) None, keyCache = (\<lambda>_. None),
        downloadedCount = 0\<rparr>"

section \<open>Reassembly (\<^verbatim>\<open>stitchSegments\<close>)\<close>

text \<open>
  \<^verbatim>\<open>merged.set(buffer, offset)\<close> throws a \<^verbatim>\<open>RangeError\<close> when the source does not fit;
  \<open>None\<close> stands for it. An element of the argument array may be a hole or
  \<^verbatim>\<open>undefined\<close>, which the filter \<^verbatim>\<open>b && b.length > 0\<close> drops.
\<close>

definition typedSet :: "bytes \<Rightarrow> bytes \<Rightarrow> nat \<Rightarrow> bytes option" where
  "typedSet target src off =
     (if off + length src \<le> length target
      then Some (take off target @ src @ drop (off + length src) target)
      else None)"

fun stitchLoop :: "bytes list \<Rightarrow> bytes \<Rightarrow> nat \<Rightarrow> bytes option" where
  "stitchLoop [] merged offset = Some merged"
| "stitchLoop (buffer # rest) merged offset =
     (case typedSet merged buffer offset of
        None \<Rightarrow> None
      | Some merged' \<Rightarrow> stitchLoop rest merged' (offset + length buffer))"

definition validBuffers :: "bytes option list \<Rightarrow> bytes list" where
  "validBuffers buffers = [b. Some b \<leftarrow> buffers, length b > 0]"

definition stitchSegments :: "bytes option list \<Rightarrow> bytes option" where
  "stitchSegments buffers =
     (let valid = validBuffers buffers;
          totalLength = foldl (\<lambda>acc b. acc + length b) 0 valid;
          merged = replicate totalLength 0
      in stitchLoop valid merged 0)"

section \<open>Properties of the manifest parser\<close>

text \<open>
  The words of the specification about lines: a key directive, the encryption
  information a key directive stands for (method, resolved key address, decoded
  IV; none when the method is absent or \<^verbatim>\<open>NONE\<close>), a key directive that names a
  method, an init-segment directive that carries an address, a directive or blank
  line, and a line for which the parser emits a descriptor.
\<close>

definition isKeyDirective :: "string \<Rightarrow> bool" where
  "isKeyDirective raw = startsWith (trim raw) ''#EXT-X-KEY:''"

definition directiveKey :: "urlapi \<Rightarrow> string \<Rightarrow> string \<Rightarrow> EncryptionData option" where
  "directiveKey U baseUrl raw =
     (let attrs = parseAttributes (drop 11 (trim raw))
      in case attrs ''METHOD'' of
           None \<Rightarrow> None
         | Some m \<Rightarrow>
             if m = [] \<or> m = ''NONE'' then None
             else Some \<lparr>method = m,
                        uri = Some (resolveUrl U baseUrl (attrs ''URI'')),
                        iv = (case attrs ''IV'' of
                                None \<Rightarrow> None
                              | Some h \<Rightarrow> if h = [] then None else Some (hexToBytes h))\<rparr>)"

definition namesMethod :: "string \<Rightarrow> bool" where
  "namesMethod raw =
     (isKeyDirective raw \<and>
      (case parseAttributes (drop 11 (trim raw)) ''METHOD'' of
         None \<Rightarrow> False
       | Some m \<Rightarrow> m \<noteq> [] \<and> m \<noteq> ''NONE''))"

definition isInitDirective :: "string \<Rightarrow> bool" where
  "isInitDirective raw =
     (startsWith (trim raw) ''#EXT-X-MAP:'' \<and> truthy (parseAttributes (drop 11 (trim raw)) ''URI''))"

definition directiveOrBlank :: "string \<Rightarrow> bool" where
  "directiveOrBlank raw = (trim raw = [] \<or> startsWith (trim raw) ''#'')"

definition emitsSegment :: "string \<Rightarrow> bool" where
  "emitsSegment raw = (trim raw \<noteq> [] \<and> (\<not> startsWith (trim raw) ''#'' \<or> isInitDirective raw))"

subsection \<open>Lemmas about the line loop\<close>

lemma startsWith_iff: "startsWith s p \<longleftrightarrow> (\<exists>post. s = p @ post)"
  unfolding startsWith_def by (metis append_eq_conv_conj append_take_drop_id)

lemma includesStr_iff: "includesStr s p \<longleftrightarrow> (\<exists>pre post. s = pre @ p @ post)"
proof (induction s)
  case Nil
  then show ?case by simp
next
  case (Cons c cs)
  show ?case
  proof
    assume "includesStr (c # cs) p"
    then consider "startsWith (c # cs) p" | "includesStr cs p" by auto
    then show "\<exists>pre post. c # cs = pre @ p @ post"
    proof cases
      case 1
      then obtain post where "c # cs = p @ post" by (auto simp: startsWith_iff)
      then have "c # cs = [] @ p @ post" by simp
      then show ?thesis by blast
    next
      case 2
      with Cons obtain pre post where "cs = pre @ p @ post" by auto
      then have "c # cs = (c # pre) @ p @ post" by simp
      then show ?thesis by blast
    qed
  next
    assume "\<exists>pre post. c # cs = pre @ p @ post"
    then obtain pre post where e: "c # cs = pre @ p @ post" by auto
    show "includesStr (c # cs) p"
    proof (cases pre)
      case Nil
      with e have "startsWith (c # cs) p" by (auto simp: startsWith_iff)
      then show ?thesis by simp
    next
      case (Cons a pre')
      with e have "cs = pre' @ p @ post" by simp
      with Cons.IH have "includesStr cs p" by blast
      then show ?thesis by simp
    qed
  qed
qed

lemma scanLines_append:
  "scanLines U b (xs @ ys) st = scanLines U b ys (scanLines U b xs st)"
  by (simp add: scanLines_def)

lemma scanLines_Cons:
  "scanLines U b (x # xs) st = scanLines U b xs (parseLine U b st x)"
  by (simp add: scanLines_def)

lemma scanLines_Nil: "scanLines U b [] st = st"
  by (simp add: scanLines_def)

lemma startsWith_hash:
  "startsWith l ''#EXT-X-KEY:'' \<Longrightarrow> startsWith l ''#''"
  "startsWith l ''#EXT-X-MAP:'' \<Longrightarrow> startsWith l ''#''"
  by (auto simp: startsWith_iff)

lemma key_not_map:
  "startsWith l ''#EXT-X-KEY:'' \<Longrightarrow> \<not> startsWith l ''#EXT-X-MAP:''"
  by (auto simp: startsWith_iff)

lemma stepTargetDuration_fields [simp]:
  "st_segments (stepTargetDuration l st) = st_segments st"
  "st_currentKey (stepTargetDuration l st) = st_currentKey st"
  "st_isEncrypted (stepTargetDuration l st) = st_isEncrypted st"
  by (simp_all add: stepTargetDuration_def)

lemma stepMediaSequence_fields [simp]:
  "st_segments (stepMediaSequence l st) = st_segments st"
  "st_currentKey (stepMediaSequence l st) = st_currentKey st"
  "st_isEncrypted (stepMediaSequence l st) = st_isEncrypted st"
  by (simp_all add: stepMediaSequence_def)

lemma stepKey_segments [simp]: "st_segments (stepKey U b l st) = st_segments st"
  by (simp add: stepKey_def Let_def split: option.splits)

lemma stepKey_isEncrypted:
  "st_isEncrypted (stepKey U b (trim raw) st) = (st_isEncrypted st \<or> namesMethod raw)"
  by (simp add: stepKey_def namesMethod_def isKeyDirective_def Let_def split: option.splits)

lemma stepKey_currentKey:
  "st_currentKey (stepKey U b (trim raw) st) =
     (if isKeyDirective raw then directiveKey U b raw else st_currentKey st)"
  by (simp add: stepKey_def directiveKey_def isKeyDirective_def truthy_def Let_def
      split: option.splits)

lemma stepMap_fields [simp]:
  "st_currentKey (stepMap U b l st) = st_currentKey st"
  "st_isEncrypted (stepMap U b l st) = st_isEncrypted st"
  by (simp_all add: stepMap_def Let_def)

lemma stepSegment_fields [simp]:
  "st_currentKey (stepSegment U b l st) = st_currentKey st"
  "st_isEncrypted (stepSegment U b l st) = st_isEncrypted st"
  by (simp_all add: stepSegment_def)

lemma stepMap_segments:
  "\<exists>new. st_segments (stepMap U b (trim raw) st) = st_segments st @ new
     \<and> length new = (if isInitDirective raw then 1 else 0)
     \<and> (\<forall>s\<in>set new. encryption s = st_currentKey st)"
  by (simp add: stepMap_def isInitDirective_def Let_def)

lemma stepSegment_segments:
  "\<exists>new. st_segments (stepSegment U b l st) = st_segments st @ new
     \<and> length new = (if startsWith l ''#'' then 0 else 1)
     \<and> (\<forall>s\<in>set new. encryption s = st_currentKey st)"
  by (simp add: stepSegment_def)

lemma parseLine_isEncrypted:
  "st_isEncrypted (parseLine U b st raw) = (st_isEncrypted st \<or> namesMethod raw)"
proof (cases "trim raw = []")
  case True
  then have "\<not> namesMethod raw"
    by (simp add: namesMethod_def isKeyDirective_def startsWith_def)
  with True show ?thesis by (simp add: parseLine_def)
next
  case False
  then show ?thesis by (simp add: parseLine_def Let_def stepKey_isEncrypted)
qed

lemma scanLines_isEncrypted:
  "st_isEncrypted (scanLines U b ls st) = (st_isEncrypted st \<or> (\<exists>l\<in>set ls. namesMethod l))"
  by (induction ls arbitrary: st) (auto simp: scanLines_Nil scanLines_Cons parseLine_isEncrypted)

lemma parseLine_currentKey:
  "st_currentKey (parseLine U b st raw) =
     (if isKeyDirective raw then directiveKey U b raw else st_currentKey st)"
proof (cases "trim raw = []")
  case True
  then have "\<not> isKeyDirective raw"
    by (simp add: isKeyDirective_def startsWith_def)
  with True show ?thesis by (simp add: parseLine_def)
next
  case False
  then show ?thesis by (simp add: parseLine_def Let_def stepKey_currentKey)
qed

lemma parseLine_segments:
  "\<exists>new. st_segments (parseLine U b st raw) = st_segments st @ new
     \<and> length new = (if emitsSegment raw then 1 else 0)
     \<and> (\<forall>s\<in>set new. encryption s = st_currentKey (parseLine U b st raw))"
proof (cases "trim raw = []")
  case True
  then show ?thesis by (simp add: parseLine_def emitsSegment_def)
next
  case False
  define st3 where "st3 = stepKey U b (trim raw) (stepMediaSequence (trim raw) (stepTargetDuration (trim raw) st))"
  have pl: "parseLine U b st raw = stepSegment U b (trim raw) (stepMap U b (trim raw) st3)"
    using False by (simp add: parseLine_def Let_def st3_def)
  have seg3: "st_segments st3 = st_segments st" by (simp add: st3_def)
  have key: "st_currentKey (parseLine U b st raw) = st_currentKey st3" by (simp add: pl)
  obtain n1 where n1: "st_segments (stepMap U b (trim raw) st3) = st_segments st3 @ n1"
    "length n1 = (if isInitDirective raw then 1 else 0)"
    "\<forall>s\<in>set n1. encryption s = st_currentKey st3"
    using stepMap_segments [of U b raw st3] by blast
  obtain n2 where n2: "st_segments (stepSegment U b (trim raw) (stepMap U b (trim raw) st3))
        = st_segments (stepMap U b (trim raw) st3) @ n2"
    "length n2 = (if startsWith (trim raw) ''#'' then 0 else 1)"
    "\<forall>s\<in>set n2. encryption s = st_currentKey (stepMap U b (trim raw) st3)"
    using stepSegment_segments [of U b "trim raw" "stepMap U b (trim raw) st3"] by blast
  have hash: "isInitDirective raw \<Longrightarrow> startsWith (trim raw) ''#''"
    by (simp add: isInitDirective_def startsWith_hash)
  have "st_segments (parseLine U b st raw) = st_segments st @ (n1 @ n2)"
    by (simp add: pl n1 n2 seg3)
  moreover have "length (n1 @ n2) = (if emitsSegment raw then 1 else 0)"
    using False hash by (auto simp: n1 n2 emitsSegment_def)
  moreover have "\<forall>s\<in>set (n1 @ n2). encryption s = st_currentKey (parseLine U b st raw)"
    using n1(3) n2(3) by (auto simp: key)
  ultimately show ?thesis by blast
qed

lemma scanLines_segments:
  assumes "\<forall>l\<in>set ls. \<not> isKeyDirective l"
  shows "st_currentKey (scanLines U b ls st) = st_currentKey st \<and>
     (\<exists>new. st_segments (scanLines U b ls st) = st_segments st @ new
        \<and> length new = length (filter emitsSegment ls)
        \<and> (\<forall>s\<in>set new. encryption s = st_currentKey st))"
  using assms
proof (induction ls arbitrary: st)
  case Nil
  then show ?case by (simp add: scanLines_Nil)
next
  case (Cons l ls)
  let ?st1 = "parseLine U b st l"
  from Cons.prems have nk: "\<not> isKeyDirective l" and rest: "\<forall>l\<in>set ls. \<not> isKeyDirective l"
    by simp_all
  have k1: "st_currentKey ?st1 = st_currentKey st" using nk by (simp add: parseLine_currentKey)
  obtain n1 where n1: "st_segments ?st1 = st_segments st @ n1"
    "length n1 = (if emitsSegment l then 1 else 0)"
    "\<forall>s\<in>set n1. encryption s = st_currentKey ?st1"
    using parseLine_segments [of U b st l] by blast
  from Cons.IH [OF rest, of ?st1] obtain n2 where
    k2: "st_currentKey (scanLines U b ls ?st1) = st_currentKey ?st1" and
    n2: "st_segments (scanLines U b ls ?st1) = st_segments ?st1 @ n2"
    "length n2 = length (filter emitsSegment ls)"
    "\<forall>s\<in>set n2. encryption s = st_currentKey ?st1"
    by blast
  have "st_segments (scanLines U b (l # ls) st) = st_segments st @ (n1 @ n2)"
    by (simp add: scanLines_Cons n1 n2)
  moreover have "length (n1 @ n2) = length (filter emitsSegment (l # ls))"
    by (simp add: n1 n2)
  moreover have "\<forall>s\<in>set (n1 @ n2). encryption s = st_currentKey st"
    using n1(3) n2(3) k1 by auto
  moreover have "st_currentKey (scanLines U b (l # ls) st) = st_currentKey st"
    by (simp add: scanLines_Cons k2 k1)
  ultimately show ?case by blast
qed

lemma scanLines_count:
  "length (st_segments (scanLines U b ls st)) = length (st_segments st) + length (filter emitsSegment ls)"
proof (induction ls arbitrary: st)
  case Nil
  then show ?case by (simp add: scanLines_Nil)
next
  case (Cons l ls)
  obtain n1 where n1: "st_segments (parseLine U b st l) = st_segments st @ n1"
    "length n1 = (if emitsSegment l then 1 else 0)"
    using parseLine_segments [of U b st l] by blast
  show ?case by (simp add: scanLines_Cons Cons.IH n1)
qed

lemma scanLines_extends:
  "\<exists>later. st_segments (scanLines U b ls st) = st_segments st @ later"
proof (induction ls arbitrary: st)
  case Nil
  then show ?case by (simp add: scanLines_Nil)
next
  case (Cons l ls)
  obtain n1 where n1: "st_segments (parseLine U b st l) = st_segments st @ n1"
    using parseLine_segments [of U b st l] by blast
  from Cons.IH [of "parseLine U b st l"] obtain n2 where
    "st_segments (scanLines U b ls (parseLine U b st l)) = st_segments (parseLine U b st l) @ n2"
    by blast
  then show ?case by (simp add: scanLines_Cons n1)
qed


text \<open>
  Claim C5. The scenario of the specification: the five-line manifest, resolved
  against \<^verbatim>\<open>https://cdn.example/path/playlist.m3u8\<close>, parses to exactly two
  descriptors with the two resolved addresses, indices 0 and 1, sequence numbers
  100 and 101, no encryption information and no init-segment flag (the field is
  absent, which reads as false), and to metadata with target duration 10 and
  estimated duration 20, the segment count times the target duration.
\<close>

theorem scenario_two_segments:
  "parseManifestText basicURL ''https://cdn.example/path/playlist.m3u8''
     ''#EXTM3U\<newline>#EXT-X-TARGETDURATION:10\<newline>#EXT-X-MEDIA-SEQUENCE:100\<newline>seg0.ts\<newline>seg1.ts\<newline>''
   = Inr ([\<lparr>url = ''https://cdn.example/path/seg0.ts'', index = 0, encryption = None,
             seqId = Some (Fin 100), isInitSegment = None\<rparr>,
           \<lparr>url = ''https://cdn.example/path/seg1.ts'', index = 1, encryption = None,
             seqId = Some (Fin 101), isInitSegment = None\<rparr>],
          \<lparr>duration = Fin 20, segmentCount = 2, targetDuration = Fin 10,
           isEncrypted = False\<rparr>)"
  by code_simp

text \<open>
  Claim C7. A manifest text that contains the marker \<^verbatim>\<open>#EXT-X-STREAM-INF\<close> anywhere,
  whatever stands before and after it, fails with \<open>NotVariantPlaylist\<close>; no
  segment is returned.
\<close>

theorem master_playlist_rejected:
  "parseManifestText U baseUrl (pre @ ''#EXT-X-STREAM-INF'' @ post) = Inl NotVariantPlaylist"
proof -
  have "includesStr (pre @ ''#EXT-X-STREAM-INF'' @ post) ''#EXT-X-STREAM-INF''"
    unfolding includesStr_iff by blast
  then show ?thesis by (simp only: parseManifestText_def if_True)
qed

text \<open>
  Claim C9, as amended. A manifest without the master-playlist marker whose lines
  are all blank or directive lines, none of them an init-segment directive that
  carries an address, fails with \<open>NoSegmentsFound\<close>. As stated the claim fails:
  an \<^verbatim>\<open>#EXT-X-MAP\<close> directive is a directive line, and the parser emits a descriptor
  for it, so a manifest of directive lines only can parse successfully.
\<close>

theorem no_segments_found:
  assumes "\<not> includesStr text ''#EXT-X-STREAM-INF''"
    and "\<forall>l\<in>set (splitOn CHR 0x0A text). directiveOrBlank l \<and> \<not> isInitDirective l"
  shows "parseManifestText U baseUrl text = Inl NoSegmentsFound"
proof -
  have "filter emitsSegment (splitOn CHR 0x0A text) = []"
    using assms(2) by (auto simp: filter_empty_conv emitsSegment_def directiveOrBlank_def)
  then have "length (st_segments (scanLines U baseUrl (splitOn CHR 0x0A text) initState)) = 0"
    by (simp add: scanLines_count initState_def)
  with assms(1) show ?thesis by (simp add: parseManifestText_def Let_def)
qed

text \<open>The amended claim at a manifest of three directive lines and a blank one.\<close>

theorem no_segments_found_witness:
  "parseManifestText basicURL ''https://cdn.example/path/playlist.m3u8''
     ''#EXTM3U\<newline>#EXT-X-TARGETDURATION:10\<newline>\<newline>#EXT-X-ENDLIST\<newline>''
   = Inl NoSegmentsFound"
proof -
  let ?t = "''#EXTM3U\<newline>#EXT-X-TARGETDURATION:10\<newline>\<newline>#EXT-X-ENDLIST\<newline>''"
  have h1: "\<not> includesStr ?t ''#EXT-X-STREAM-INF''" by code_simp
  have h2: "\<forall>l\<in>set (splitOn CHR 0x0A ?t). directiveOrBlank l \<and> \<not> isInitDirective l"
    by code_simp
  show ?thesis using no_segments_found [OF h1 h2] .
qed

text \<open>
  The counterexample to C9 as stated: every line is a directive or blank, and the
  result is one init-segment descriptor, not \<open>NoSegmentsFound\<close>.
\<close>

theorem init_only_manifest_counterexample:
  \<open>list_all directiveOrBlank (splitOn CHR 0x0A ''#EXTM3U\<newline>#EXT-X-MAP:URI="init.mp4"\<newline>'')
   \<and> parseManifestText basicURL ''https://cdn.example/path/playlist.m3u8''
        ''#EXTM3U\<newline>#EXT-X-MAP:URI="init.mp4"\<newline>''
      = Inr ([\<lparr>url = ''https://cdn.example/path/init.mp4'', index = 0, encryption = None,
                seqId = Some (Fin 0), isInitSegment = Some True\<rparr>],
             \<lparr>duration = Fin 0, segmentCount = 1, targetDuration = Fin 0,
              isEncrypted = False\<rparr>)\<close>
  by code_simp

text \<open>
  Claim C10. When parsing succeeds, the metadata's \<open>isEncrypted\<close> flag is true
  exactly when some line is a key directive whose \<^verbatim>\<open>METHOD\<close> attribute has a value
  (a non-empty one, the code's truthiness test) other than \<^verbatim>\<open>NONE\<close>; and the flag,
  once set, survives every later line, so also a later \<^verbatim>\<open>METHOD=NONE\<close>.
\<close>

theorem isEncrypted_iff:
  "(parseManifestText U baseUrl text = Inr (segs, info) \<longrightarrow>
      isEncrypted info = (\<exists>l\<in>set (splitOn CHR 0x0A text). namesMethod l))
   \<and> (st_isEncrypted st \<longrightarrow> st_isEncrypted (scanLines U baseUrl ls st))"
proof (intro conjI impI)
  assume "parseManifestText U baseUrl text = Inr (segs, info)"
  then have "isEncrypted info = st_isEncrypted (scanLines U baseUrl (splitOn CHR 0x0A text) initState)"
    by (auto simp: parseManifestText_def Let_def split: if_splits)
  then show "isEncrypted info = (\<exists>l\<in>set (splitOn CHR 0x0A text). namesMethod l)"
    by (simp add: scanLines_isEncrypted initState_def)
next
  assume "st_isEncrypted st"
  then show "st_isEncrypted (scanLines U baseUrl ls st)"
    by (simp add: scanLines_isEncrypted)
qed

text \<open>
  A manifest whose key is cleared before the first segment line: the flag is true
  and both descriptors are plaintext.
\<close>

theorem isEncrypted_iff_witness:
  \<open>parseManifestText basicURL ''https://cdn.example/path/playlist.m3u8''
     ''#EXT-X-KEY:METHOD=AES-128,URI="k.bin"\<newline>#EXT-X-KEY:METHOD=NONE\<newline>a.ts\<newline>b.ts''
   = Inr ([\<lparr>url = ''https://cdn.example/path/a.ts'', index = 0, encryption = None,
             seqId = Some (Fin 0), isInitSegment = None\<rparr>,
           \<lparr>url = ''https://cdn.example/path/b.ts'', index = 1, encryption = None,
             seqId = Some (Fin 1), isInitSegment = None\<rparr>],
          \<lparr>duration = Fin 0, segmentCount = 2, targetDuration = Fin 0, isEncrypted = True\<rparr>)
   \<and> list_ex namesMethod (splitOn CHR 0x0A
        ''#EXT-X-KEY:METHOD=AES-128,URI="k.bin"\<newline>#EXT-X-KEY:METHOD=NONE\<newline>a.ts\<newline>b.ts'')
   \<and> st_isEncrypted (scanLines basicURL ''https://cdn.example/path/playlist.m3u8''
        [''#EXT-X-KEY:METHOD=NONE'', ''a.ts''] (initState\<lparr>st_isEncrypted := True\<rparr>))\<close>
proof -
  let ?b = "''https://cdn.example/path/playlist.m3u8''"
  let ?t = \<open>''#EXT-X-KEY:METHOD=AES-128,URI="k.bin"\<newline>#EXT-X-KEY:METHOD=NONE\<newline>a.ts\<newline>b.ts''\<close>
  let ?segs = "[\<lparr>url = ''https://cdn.example/path/a.ts'', index = 0, encryption = None,
             seqId = Some (Fin 0), isInitSegment = None\<rparr>,
           \<lparr>url = ''https://cdn.example/path/b.ts'', index = 1, encryption = None,
             seqId = Some (Fin 1), isInitSegment = None\<rparr>]"
  let ?info = "\<lparr>duration = Fin 0, segmentCount = 2, targetDuration = Fin 0, isEncrypted = True\<rparr>"
  have p: "parseManifestText basicURL ?b ?t = Inr (?segs, ?info)" by code_simp
  have s: "st_isEncrypted (initState\<lparr>st_isEncrypted := True\<rparr>)" by simp
  from isEncrypted_iff [of basicURL ?b ?t ?segs ?info "initState\<lparr>st_isEncrypted := True\<rparr>"
      "[''#EXT-X-KEY:METHOD=NONE'', ''a.ts'']"] p s
  have "(\<exists>l\<in>set (splitOn CHR 0x0A ?t). namesMethod l)
     \<and> st_isEncrypted (scanLines basicURL ?b [''#EXT-X-KEY:METHOD=NONE'', ''a.ts'']
          (initState\<lparr>st_isEncrypted := True\<rparr>))"
    by simp
  with p show ?thesis by (simp add: list_ex_iff)
qed

text \<open>
  Claim C8. Let the lines of a manifest that parses be \<open>pre\<close>, a key directive
  \<open>k\<close>, lines \<open>mid\<close> without a key directive, and \<open>post\<close>. The descriptors are
  those emitted for \<open>pre\<close>, then those for \<open>mid\<close>, then those for \<open>post\<close>, and
  every descriptor emitted for \<open>mid\<close> carries the encryption information of \<open>k\<close>:
  method, resolved key address and decoded IV when \<open>k\<close> names a method other than
  \<^verbatim>\<open>NONE\<close>, and none when \<open>k\<close> clears the key.
\<close>

theorem key_carry_forward:
  assumes "splitOn CHR 0x0A text = pre @ k # mid @ post"
    and "isKeyDirective k"
    and "\<forall>l\<in>set mid. \<not> isKeyDirective l"
    and "parseManifestText U baseUrl text = Inr (segs, info)"
  shows "length segs = length (filter emitsSegment pre) + length (filter emitsSegment mid)
                       + length (filter emitsSegment post)
       \<and> (\<forall>s\<in>set (take (length (filter emitsSegment mid))
                        (drop (length (filter emitsSegment pre)) segs)).
             encryption s = directiveKey U baseUrl k)"
proof -
  let ?st1 = "scanLines U baseUrl (pre @ [k]) initState"
  let ?st2 = "scanLines U baseUrl mid ?st1"
  have nk: "\<not> emitsSegment k"
    using assms(2)
    by (auto simp: emitsSegment_def isKeyDirective_def isInitDirective_def
        dest: startsWith_hash key_not_map)
  from assms(4) have segs: "segs = st_segments (scanLines U baseUrl (splitOn CHR 0x0A text) initState)"
    by (auto simp: parseManifestText_def Let_def split: if_splits)
  have full: "scanLines U baseUrl (splitOn CHR 0x0A text) initState = scanLines U baseUrl post ?st2"
    by (simp add: assms(1) scanLines_append scanLines_Cons scanLines_Nil)
  have key1: "st_currentKey ?st1 = directiveKey U baseUrl k"
    using assms(2) by (simp add: scanLines_append scanLines_Cons scanLines_Nil parseLine_currentKey)
  have len1: "length (st_segments ?st1) = length (filter emitsSegment pre)"
    using nk by (simp add: scanLines_count initState_def)
  from scanLines_segments [OF assms(3), of U baseUrl ?st1] obtain new where
    new: "st_segments ?st2 = st_segments ?st1 @ new"
    "length new = length (filter emitsSegment mid)"
    "\<forall>s\<in>set new. encryption s = st_currentKey ?st1"
    by blast
  from scanLines_extends [of U baseUrl post ?st2] obtain later where
    later: "st_segments (scanLines U baseUrl post ?st2) = st_segments ?st2 @ later"
    by blast
  have lenl: "length later = length (filter emitsSegment post)"
    using scanLines_count [of U baseUrl post ?st2] later by simp
  have decomp: "segs = st_segments ?st1 @ new @ later"
    by (simp add: segs full later new(1))
  have "take (length (filter emitsSegment mid)) (drop (length (filter emitsSegment pre)) segs) = new"
    by (simp add: decomp len1 [symmetric] new(2) [symmetric])
  moreover have "length segs = length (filter emitsSegment pre) + length (filter emitsSegment mid)
                       + length (filter emitsSegment post)"
    by (simp add: decomp len1 new(2) lenl)
  ultimately show ?thesis using new(3) key1 by simp
qed


text \<open>
  A key directive followed by two segments, then \<^verbatim>\<open>METHOD=NONE\<close> and one segment.
\<close>

theorem key_carry_forward_witness:
  \<open>(case parseManifestText basicURL ''https://cdn.example/path/playlist.m3u8''
      ''#EXTM3U\<newline>#EXT-X-KEY:METHOD=AES-128,URI="k.bin",IV=0x0102\<newline>a.ts\<newline>b.ts\<newline>#EXT-X-KEY:METHOD=NONE\<newline>c.ts'' of
      Inl e \<Rightarrow> False
    | Inr (segs, info) \<Rightarrow>
        map encryption segs =
          [Some \<lparr>method = ''AES-128'', uri = Some ''https://cdn.example/path/k.bin'',
                 iv = Some [1, 2]\<rparr>,
           Some \<lparr>method = ''AES-128'', uri = Some ''https://cdn.example/path/k.bin'',
                 iv = Some [1, 2]\<rparr>,
           None])\<close>
proof -
  let ?b = "''https://cdn.example/path/playlist.m3u8''"
  let ?t = \<open>''#EXTM3U\<newline>#EXT-X-KEY:METHOD=AES-128,URI="k.bin",IV=0x0102\<newline>a.ts\<newline>b.ts\<newline>#EXT-X-KEY:METHOD=NONE\<newline>c.ts''\<close>
  let ?k1 = \<open>''#EXT-X-KEY:METHOD=AES-128,URI="k.bin",IV=0x0102''\<close>
  let ?k2 = "''#EXT-X-KEY:METHOD=NONE''"
  let ?K = "\<lparr>method = ''AES-128'', uri = Some ''https://cdn.example/path/k.bin'', iv = Some [1, 2 :: byte]\<rparr>"
  let ?seg = "\<lambda>u i e. \<lparr>url = u, index = i, encryption = e, seqId = Some (Fin (of_nat i)),
                 isInitSegment = None\<rparr>"
  let ?segs = "[?seg ''https://cdn.example/path/a.ts'' 0 (Some ?K),
                ?seg ''https://cdn.example/path/b.ts'' 1 (Some ?K),
                ?seg ''https://cdn.example/path/c.ts'' 2 None]"
  let ?info = "\<lparr>duration = Fin 0, segmentCount = 3, targetDuration = Fin 0, isEncrypted = True\<rparr>"
  have p: "parseManifestText basicURL ?b ?t = Inr (?segs, ?info)" by code_simp
  have l1: "splitOn CHR 0x0A ?t = [''#EXTM3U''] @ ?k1 # [''a.ts'', ''b.ts''] @ [?k2, ''c.ts'']"
    by code_simp
  have l2: "splitOn CHR 0x0A ?t = [''#EXTM3U'', ?k1, ''a.ts'', ''b.ts''] @ ?k2 # [''c.ts''] @ []"
    by code_simp
  have k1: "isKeyDirective ?k1" and k2: "isKeyDirective ?k2" by code_simp+
  have m1: "\<forall>l\<in>set [''a.ts'', ''b.ts'']. \<not> isKeyDirective l" by code_simp
  have m2: "\<forall>l\<in>set [''c.ts'']. \<not> isKeyDirective l" by code_simp
  have d1: "directiveKey basicURL ?b ?k1 = Some ?K" by code_simp
  have d2: "directiveKey basicURL ?b ?k2 = None" by code_simp
  have c1: "length (filter emitsSegment [''#EXTM3U'']) = 0"
    "length (filter emitsSegment [''a.ts'', ''b.ts'']) = 2"
    "length (filter emitsSegment [''#EXTM3U'', ?k1, ''a.ts'', ''b.ts'']) = 2"
    "length (filter emitsSegment [''c.ts'']) = 1"
    by code_simp+
  have a: "\<forall>s\<in>set (take 2 (drop 0 ?segs)). encryption s = Some ?K"
    using key_carry_forward [OF l1 k1 m1 p] unfolding c1 d1 by blast
  have b: "\<forall>s\<in>set (take 1 (drop 2 ?segs)). encryption s = None"
    using key_carry_forward [OF l2 k2 m2 p] unfolding c1 d2 by blast
  from a b show ?thesis unfolding p by simp
qed

section \<open>Properties of the derived IV\<close>

text \<open>
  \<open>beValue\<close> reads a list of bytes as a big-endian number.
\<close>

definition beValue :: "bytes \<Rightarrow> nat" where
  "beValue bs = foldl (\<lambda>acc b. acc * 256 + unat b) 0 bs"

lemma length_beBytes [simp]: "length (beBytes n v) = n"
  by (induction n arbitrary: v) simp_all

lemma BigInt_of_nat: "BigInt (Fin (of_nat n)) = Some (int n)"
  by (simp add: BigInt_def)

lemma writeAt_zeros:
  "writeAt (replicate 16 0) 8 (beBytes 8 v) = replicate 8 0 @ beBytes 8 v"
  unfolding writeAt_def length_beBytes by simp

lemma sequenceToIV_of_nat:
  "sequenceToIV (Fin (of_nat n)) = replicate 8 0 @ beBytes 8 (n mod 2 ^ 64)"
proof -
  have "nat (int n mod 2 ^ 64) = n mod 2 ^ 64"
    by (simp add: nat_mod_distrib)
  then show ?thesis
    by (simp only: sequenceToIV_def Let_def BigInt_of_nat option.case setBigUint64_def writeAt_zeros)
qed

lemma beValue_snoc: "beValue (bs @ [b]) = beValue bs * 256 + unat b"
  by (simp add: beValue_def)

lemma beValue_beBytes: "beValue (beBytes n v) = v mod 256 ^ n"
proof (induction n arbitrary: v)
  case 0
  then show ?case by (simp add: beValue_def)
next
  case (Suc n)
  have "unat (of_nat v :: byte) = v mod 256" by (simp add: unat_of_nat)
  then have "beValue (beBytes (Suc n) v) = (v div 256 mod 256 ^ n) * 256 + v mod 256"
    by (simp add: beValue_snoc Suc.IH)
  also have "\<dots> = v mod 256 ^ Suc n"
    by (simp add: mod_mult2_eq)
  finally show ?case .
qed

text \<open>
  Claim C4. For every non-negative integer \<open>n\<close> the derived IV has exactly 16
  bytes, bytes 0 to 7 are zero and bytes 8 to 15 are eight bytes whose big-endian
  value is \<open>n\<close> (taken modulo \<open>2 ^ 64\<close>, the width of the field, so \<open>n\<close> itself
  below \<open>2 ^ 64\<close>); for \<open>n = 7\<close> the IV is fifteen zero bytes and a 7. The
  function has no other argument and no state.
\<close>

theorem sequenceToIV_layout:
  "length (sequenceToIV (Fin (of_nat n))) = 16
   \<and> take 8 (sequenceToIV (Fin (of_nat n))) = replicate 8 0
   \<and> length (drop 8 (sequenceToIV (Fin (of_nat n)))) = 8
   \<and> beValue (drop 8 (sequenceToIV (Fin (of_nat n)))) = n mod 2 ^ 64
   \<and> sequenceToIV (Fin 7) = [0, 0, 0, 0, 0, 0, 0, 0, 0, 0, 0, 0, 0, 0, 0, 7]"
proof -
  have "sequenceToIV (Fin 7) = [0, 0, 0, 0, 0, 0, 0, 0, 0, 0, 0, 0, 0, 0, 0, 7]"
    by code_simp
  moreover have "beValue (beBytes 8 (n mod 2 ^ 64)) = n mod 2 ^ 64"
    by (simp add: beValue_beBytes)
  ultimately show ?thesis by (simp add: sequenceToIV_of_nat)
qed

section \<open>Properties of the stitcher\<close>

text \<open>
  \<open>deliver n ds\<close> is the array of \<^verbatim>\<open>downloadSegments\<close> after the buffers \<open>ds\<close>,
  each with its descriptor index, have been stored in the order of the list.
\<close>

definition deliver :: "nat \<Rightarrow> (nat \<times> bytes) list \<Rightarrow> bytes option list" where
  "deliver n ds = fold (\<lambda>(i, d) arr. storeAt arr i d) ds (replicate n None)"

lemma foldl_length_sum: "foldl (\<lambda>acc b. acc + length b) a bs = a + length (concat bs)"
  by (induction bs arbitrary: a) simp_all

lemma stitchLoop_concat:
  "length merged = offset + length (concat bs) + k \<Longrightarrow>
   stitchLoop bs merged offset
     = Some (take offset merged @ concat bs @ drop (offset + length (concat bs)) merged)"
proof (induction bs arbitrary: merged offset)
  case Nil
  then show ?case by simp
next
  case (Cons b bs)
  let ?m = "take offset merged @ b @ drop (offset + length b) merged"
  have fit: "offset + length b \<le> length merged" using Cons.prems by simp
  then have ts: "typedSet merged b offset = Some ?m" by (simp add: typedSet_def)
  have len: "length ?m = (offset + length b) + length (concat bs) + k"
    using Cons.prems by simp
  have t: "take (offset + length b) ?m = take offset merged @ b"
    using fit by simp
  have d: "drop (offset + length b + length (concat bs)) ?m
         = drop (offset + length (concat (b # bs))) merged"
    using fit by (simp add: add.assoc add.commute add.left_commute)
  show ?case
    by (simp only: stitchLoop.simps ts option.case Cons.IH [OF len] t d) simp
qed

lemma stitchSegments_concat: "stitchSegments buffers = Some (concat (validBuffers buffers))"
proof -
  let ?v = "validBuffers buffers"
  have "length (replicate (length (concat ?v)) (0::byte)) = 0 + length (concat ?v) + 0" by simp
  from stitchLoop_concat [OF this]
  show ?thesis by (simp add: stitchSegments_def Let_def foldl_length_sum)
qed

lemma length_storeAt: "length (storeAt arr i v) = max (length arr) (Suc i)"
  by (auto simp: storeAt_def)

lemma nth_storeAt:
  "k < max (length arr) (Suc i) \<Longrightarrow>
   storeAt arr i v ! k = (if k = i then Some v else if k < length arr then arr ! k else None)"
  by (auto simp: storeAt_def nth_append nth_list_update)

lemma storeAt_commute:
  assumes "i \<noteq> j"
  shows "storeAt (storeAt arr i v) j w = storeAt (storeAt arr j w) i v"
proof (rule nth_equalityI)
  show "length (storeAt (storeAt arr i v) j w) = length (storeAt (storeAt arr j w) i v)"
    by (simp add: length_storeAt max.commute max.left_commute)
next
  fix k assume "k < length (storeAt (storeAt arr i v) j w)"
  then have k: "k < max (max (length arr) (Suc i)) (Suc j)" by (simp add: length_storeAt)
  then have k': "k < max (max (length arr) (Suc j)) (Suc i)" by (simp add: max.commute max.left_commute)
  show "storeAt (storeAt arr i v) j w ! k = storeAt (storeAt arr j w) i v ! k"
    using assms k k' by (auto simp: nth_storeAt length_storeAt)
qed

lemma deliver_permute:
  assumes "distinct (map fst ds)" and "mset ds' = mset ds"
  shows "deliver n ds' = deliver n ds"
proof -
  let ?f = "\<lambda>(i, d) arr. storeAt arr i (d :: bytes)"
  have "fold ?f ds = fold ?f ds'"
  proof (rule fold_multiset_equiv)
    fix x y assume "x \<in> set ds" "y \<in> set ds"
    show "?f x \<circ> ?f y = ?f y \<circ> ?f x"
    proof (cases "x = y")
      case True
      then show ?thesis by simp
    next
      case False
      with assms(1) \<open>x \<in> set ds\<close> \<open>y \<in> set ds\<close> have "fst x \<noteq> fst y"
        by (metis distinct_map inj_on_def prod.expand eq_key_imp_eq_value prod.collapse)
      then show ?thesis
        by (cases x, cases y) (auto simp: fun_eq_iff storeAt_commute)
    qed
  next
    show "mset ds = mset ds'" using assms(2) by simp
  qed
  then show ?thesis by (simp add: deliver_def)
qed

text \<open>
  Claim C6. \<open>stitchSegments\<close> returns the concatenation, by ascending index, of
  the entries that are present and not empty; its length is the sum of their
  lengths. Delivering the same buffers, at distinct indices, in any order gives
  the same output, the one of delivering them in index order.
\<close>

theorem stitch_order_preserving:
  "stitchSegments buffers = Some (concat [b. Some b \<leftarrow> buffers, b \<noteq> []])
   \<and> (\<exists>out. stitchSegments buffers = Some out
          \<and> length out = sum_list (map length [b. Some b \<leftarrow> buffers, b \<noteq> []]))
   \<and> (distinct (map fst ds) \<longrightarrow> mset ds' = mset ds \<longrightarrow>
         stitchSegments (deliver n ds') = stitchSegments (deliver n ds))
   \<and> (distinct (map fst ds) \<longrightarrow>
         stitchSegments (deliver n ds) = stitchSegments (deliver n (sort_key fst ds)))"
proof -
  have v: "validBuffers buffers = [b. Some b \<leftarrow> buffers, b \<noteq> []]"
    unfolding validBuffers_def
    by (rule arg_cong [where f = concat], rule map_cong) (auto split: option.splits)
  have 1: "stitchSegments buffers = Some (concat [b. Some b \<leftarrow> buffers, b \<noteq> []])"
    using stitchSegments_concat [of buffers] by (simp only: v)
  have 2: "\<exists>out. stitchSegments buffers = Some out
          \<and> length out = sum_list (map length [b. Some b \<leftarrow> buffers, b \<noteq> []])"
    unfolding 1 by (simp add: length_concat)
  have 3: "stitchSegments (deliver n ds') = stitchSegments (deliver n ds)"
    if "distinct (map fst ds)" "mset ds' = mset ds"
    using deliver_permute [OF that] by simp
  have 4: "stitchSegments (deliver n ds) = stitchSegments (deliver n (sort_key fst ds))"
    if "distinct (map fst ds)"
    using deliver_permute [OF that, of "sort_key fst ds" n] by simp
  from 1 2 3 4 show ?thesis by blast
qed

text \<open>
  Four buffers delivered out of order and in order, and an array with a hole and an
  empty buffer.
\<close>

theorem stitch_order_preserving_witness:
  "stitchSegments (deliver 4 [(2, [5]), (0, [1, 2]), (3, []), (1, [3])]) = Some [1, 2, 3, 5]
   \<and> stitchSegments (deliver 4 [(0, [1, 2]), (1, [3]), (2, [5]), (3, [])]) = Some [1, 2, 3, 5]
   \<and> stitchSegments [Some [1, 2], None, Some [], Some [7]] = Some [1, 2, 7]"
proof -
  let ?ds = "[(0, [1, 2]), (1, [3]), (2, [5]), (3, [])] :: (nat \<times> bytes) list"
  let ?ds' = "[(2, [5]), (0, [1, 2]), (3, []), (1, [3])] :: (nat \<times> bytes) list"
  have d: "distinct (map fst ?ds)" by simp
  have m: "mset ?ds' = mset ?ds" by simp
  have a: "deliver 4 ?ds = [Some [1, 2], Some [3], Some [5], Some []]" by code_simp
  have c: "concat [b. Some b \<leftarrow> [Some [1, 2], Some [3], Some [5], Some []], b \<noteq> []] = [1, 2, 3, 5 :: byte]"
    by simp
  have e: "concat [b. Some b \<leftarrow> [Some [1, 2], None, Some [], Some [7]], b \<noteq> []] = [1, 2, 7 :: byte]"
    by simp
  from stitch_order_preserving [of "deliver 4 ?ds" ?ds ?ds' 4]
  have 1: "stitchSegments (deliver 4 ?ds) = Some [1, 2, 3, 5]" unfolding a c by blast
  from stitch_order_preserving [of "deliver 4 ?ds" ?ds ?ds' 4] d m
  have 2: "stitchSegments (deliver 4 ?ds') = stitchSegments (deliver 4 ?ds)" by blast
  from stitch_order_preserving [of "[Some [1, 2], None, Some [], Some [7]]" ?ds ?ds' 4]
  have 3: "stitchSegments [Some [1, 2], None, Some [], Some [7]] = Some [1, 2, 7]"
    unfolding e by blast
  from 1 2 3 show ?thesis by simp
qed

section \<open>Properties of the download loop\<close>

text \<open>
  \<open>startOf W n k\<close> is the instant at which batch \<open>k\<close> of \<open>n\<close> segments starts when
  the batches before it have run to their end, \<open>settleInstant W n p\<close> the instant
  at which task \<open>p\<close> settles, and \<open>failsWith W useProxy p seg e\<close> says that the task
  throws \<open>e\<close> for some content of the key cache.
\<close>

fun startOf :: "world \<Rightarrow> nat \<Rightarrow> nat \<Rightarrow> nat" where
  "startOf W n 0 = 0"
| "startOf W n (Suc k) =
     Suc (startOf W n k + batchSpan W (BATCH_SIZE * k) (min BATCH_SIZE (n - BATCH_SIZE * k)))"

definition settleInstant :: "world \<Rightarrow> nat \<Rightarrow> nat \<Rightarrow> nat" where
  "settleInstant W n p = startOf W n (p div BATCH_SIZE) + latency W p"

definition failsWith :: "world \<Rightarrow> bool \<Rightarrow> nat \<Rightarrow> Segment \<Rightarrow> error \<Rightarrow> bool" where
  "failsWith W useProxy p seg e = (\<exists>cache. fst (runTask W useProxy p seg cache) = Inl e)"

lemma aborted_mono: "aborted W t \<Longrightarrow> t \<le> t' \<Longrightarrow> aborted W t'"
  by (auto simp: aborted_def split: option.splits)

lemma settle_error:
  "settle W px t0 tasks st = Inl e \<Longrightarrow>
   \<exists>(p, seg) \<in> set tasks. failsWith W px p seg e \<and> \<not> aborted W (t0 + latency W p)"
proof (induction tasks arbitrary: st)
  case Nil
  then show ?case by simp
next
  case (Cons a tasks)
  obtain p seg where a: "a = (p, seg)" by (cases a)
  obtain r cache' where r: "runTask W px p seg (keyCache st) = (r, cache')"
    by (cases "runTask W px p seg (keyCache st)")
  show ?case
  proof (cases r)
    case (Inl e')
    show ?thesis
    proof (cases "aborted W (t0 + latency W p)")
      case True
      with Cons.prems a r Inl have "settle W px t0 tasks (st\<lparr>keyCache := cache'\<rparr>) = Inl e"
        by simp
      from Cons.IH [OF this] show ?thesis by auto
    next
      case False
      with Cons.prems a r Inl have "e' = e" by simp
      with r Inl have "failsWith W px p seg e"
        unfolding failsWith_def by (metis fst_conv)
      with False a show ?thesis by auto
    qed
  next
    case (Inr data)
    with Cons.prems a r have "settle W px t0 tasks
            (st\<lparr>results := storeAt (results st) (index seg) data,
                keyCache := cache',
                downloadedCount := Suc (downloadedCount st)\<rparr>) = Inl e"
      by simp
    from Cons.IH [OF this] show ?thesis by auto
  qed
qed

lemma settle_ok:
  "\<forall>(p, seg) \<in> set tasks. \<forall>e. failsWith W px p seg e \<longrightarrow> aborted W (t0 + latency W p) \<Longrightarrow>
   \<exists>st'. settle W px t0 tasks st = Inr st'"
proof -
  assume h: "\<forall>(p, seg) \<in> set tasks. \<forall>e. failsWith W px p seg e \<longrightarrow> aborted W (t0 + latency W p)"
  show ?thesis
  proof (cases "settle W px t0 tasks st")
    case (Inl e)
    from settle_error [OF this] h show ?thesis by blast
  next
    case (Inr st')
    then show ?thesis by blast
  qed
qed

lemma tasks_set:
  "(p, seg) \<in> set (zip [i ..< i + length (take m (drop i segs))] (take m (drop i segs))) \<Longrightarrow>
   i \<le> p \<and> p < i + m \<and> p < length segs \<and> seg = segs ! p"
proof -
  let ?b = "take m (drop i segs)"
  assume "(p, seg) \<in> set (zip [i ..< i + length ?b] ?b)"
  then obtain k where k: "k < length ?b" "p = [i ..< i + length ?b] ! k" "seg = ?b ! k"
    by (auto simp: set_zip)
  from k(1) have km: "k < m" and kl: "i + k < length segs" by auto
  from k have "p = i + k" by simp
  moreover from k(3) km kl have "seg = segs ! (i + k)" by simp
  ultimately show ?thesis using km kl by simp
qed

lemma batchLoop_step:
  "i < length segs \<Longrightarrow> \<not> aborted W t \<Longrightarrow>
   batchLoop W px segs i t st =
     (case settle W px t
             (sort_key (\<lambda>(p, seg). latency W p)
                (zip [i ..< i + length (take BATCH_SIZE (drop i segs))] (take BATCH_SIZE (drop i segs)))) st of
        Inl e \<Rightarrow> Inl e
      | Inr st' \<Rightarrow> batchLoop W px segs (i + BATCH_SIZE)
                    (Suc (t + batchSpan W i (length (take BATCH_SIZE (drop i segs))))) st')"
  by (subst batchLoop.simps) (simp add: Let_def)

lemma batchLoop_aborted: "i < length segs \<Longrightarrow> aborted W t \<Longrightarrow> batchLoop W px segs i t st = Inl Aborted"
  by (subst batchLoop.simps) simp

lemma batchLoop_done: "\<not> i < length segs \<Longrightarrow> batchLoop W px segs i t st = Inr (results st)"
  by (subst batchLoop.simps) simp

lemma startOf_Suc_loop:
  "BATCH_SIZE * j < length segs \<Longrightarrow>
   Suc (startOf W (length segs) j + batchSpan W (BATCH_SIZE * j) (length (take BATCH_SIZE (drop (BATCH_SIZE * j) segs))))
     = startOf W (length segs) (Suc j)"
  by (simp add: min_def)

declare startOf.simps(2) [simp del]

lemma div_batch: "BATCH_SIZE * j \<le> p \<Longrightarrow> p < BATCH_SIZE * j + BATCH_SIZE \<Longrightarrow> p div BATCH_SIZE = j"
  by (simp add: BATCH_SIZE_def) 

lemma batchLoop_cancel:
  assumes k: "BATCH_SIZE * k < length segs"
    and ab: "aborted W (startOf W (length segs) k)"
    and late: "\<forall>p < BATCH_SIZE * k. \<forall>e. failsWith W px p (segs ! p) e
                 \<longrightarrow> aborted W (settleInstant W (length segs) p)"
  shows "j \<le> k \<Longrightarrow> batchLoop W px segs (BATCH_SIZE * j) (startOf W (length segs) j) st = Inl Aborted"
proof (induction "k - j" arbitrary: j st)
  case 0
  then have "j = k" by simp
  with k ab show ?case by (simp add: batchLoop_aborted)
next
  case (Suc d)
  then have jk: "j < k" by simp
  let ?i = "BATCH_SIZE * j"
  let ?t = "startOf W (length segs) j"
  have il: "?i < length segs" using jk k by (auto simp: BATCH_SIZE_def)
  show ?case
  proof (cases "aborted W ?t")
    case True
    with il show ?thesis by (simp add: batchLoop_aborted)
  next
    case False
    let ?tasks = "zip [?i ..< ?i + length (take BATCH_SIZE (drop ?i segs))] (take BATCH_SIZE (drop ?i segs))"
    have "\<forall>(p, seg) \<in> set (sort_key (\<lambda>(p, seg). latency W p) ?tasks).
            \<forall>e. failsWith W px p seg e \<longrightarrow> aborted W (?t + latency W p)"
    proof (rule ballI)
      fix x assume x: "x \<in> set (sort_key (\<lambda>(p, seg). latency W p) ?tasks)"
      obtain p seg where xp: "x = (p, seg)" by (cases x)
      from x xp have m: "(p, seg) \<in> set ?tasks" by simp
      from tasks_set [OF m] have p: "?i \<le> p" "p < ?i + BATCH_SIZE" "seg = segs ! p" by simp_all
      from p(2) jk have pk: "p < BATCH_SIZE * k"
        by (metis Suc_leI add.commute mult_Suc_right less_le_trans mult_le_mono2)
      have dj: "p div BATCH_SIZE = j" using p(1,2) by (rule div_batch)
      have "\<forall>e. failsWith W px p seg e \<longrightarrow> aborted W (?t + latency W p)"
      proof (intro allI impI)
        fix e assume f: "failsWith W px p seg e"
        with late pk p(3) have "aborted W (settleInstant W (length segs) p)" by blast
        with dj show "aborted W (?t + latency W p)" by (simp add: settleInstant_def)
      qed
      then show "case x of (p, seg) \<Rightarrow> \<forall>e. failsWith W px p seg e \<longrightarrow> aborted W (?t + latency W p)"
        by (simp add: xp)
    qed
    from settle_ok [OF this] obtain st' where
      st': "settle W px ?t (sort_key (\<lambda>(p, seg). latency W p) ?tasks) st = Inr st'"
      by blast
    have "batchLoop W px segs ?i ?t st
        = batchLoop W px segs (BATCH_SIZE * Suc j) (startOf W (length segs) (Suc j)) st'"
      unfolding batchLoop_step [OF il False, of px st] st' startOf_Suc_loop [OF il, of W]
      by (simp add: add.commute)
    moreover have "d = k - Suc j" "Suc j \<le> k" using Suc.hyps(2) jk by simp_all
    ultimately show ?thesis using Suc.hyps(1) [of "Suc j" st'] by simp
  qed
qed

lemma batchLoop_error:
  "batchLoop W px segs (BATCH_SIZE * j) (startOf W (length segs) j) st = Inl e \<Longrightarrow> e \<noteq> Aborted \<Longrightarrow>
   \<exists>p < length segs. failsWith W px p (segs ! p) e \<and> \<not> aborted W (settleInstant W (length segs) p)"
proof (induction "length segs - BATCH_SIZE * j" arbitrary: j st rule: less_induct)
  case less
  let ?i = "BATCH_SIZE * j"
  let ?t = "startOf W (length segs) j"
  from less.prems have il: "?i < length segs"
    by (cases "?i < length segs") (simp_all add: batchLoop_done)
  from less.prems il have na: "\<not> aborted W ?t"
    by (cases "aborted W ?t") (simp_all add: batchLoop_aborted)
  let ?tasks = "zip [?i ..< ?i + length (take BATCH_SIZE (drop ?i segs))] (take BATCH_SIZE (drop ?i segs))"
  show ?case
  proof (cases "settle W px ?t (sort_key (\<lambda>(p, seg). latency W p) ?tasks) st")
    case (Inl e')
    with less.prems(1) batchLoop_step [OF il na, of px st] have "e' = e" by simp
    with Inl settle_error obtain p seg where
      m: "(p, seg) \<in> set ?tasks" and f: "failsWith W px p seg e" and n: "\<not> aborted W (?t + latency W p)"
      by fastforce
    from tasks_set [OF m] have p: "?i \<le> p" "p < ?i + BATCH_SIZE" "p < length segs" "seg = segs ! p"
      by simp_all
    have "p div BATCH_SIZE = j" using p(1,2) by (rule div_batch)
    with n have "\<not> aborted W (settleInstant W (length segs) p)" by (simp add: settleInstant_def)
    with f p show ?thesis by blast
  next
    case (Inr st')
    have "batchLoop W px segs ?i ?t st
        = batchLoop W px segs (BATCH_SIZE * Suc j) (startOf W (length segs) (Suc j)) st'"
      unfolding batchLoop_step [OF il na, of px st] Inr startOf_Suc_loop [OF il, of W]
      by (simp add: add.commute)
    with less.prems(1)
    have "batchLoop W px segs (BATCH_SIZE * Suc j) (startOf W (length segs) (Suc j)) st' = Inl e"
      by simp
    moreover have "length segs - BATCH_SIZE * Suc j < length segs - BATCH_SIZE * j"
      using il by (simp add: BATCH_SIZE_def)
    ultimately show ?thesis using less.hyps less.prems(2) by blast
  qed
qed

text \<open>
  Claim C2. Batches have five segments. If the cancellation flag is set at the
  instant batch \<open>k\<close> would start, and every task failure before that instant
  happened when the flag was already set, the operation fails with \<open>Aborted\<close>:
  the flag is read before each batch, and a failure after the request is
  swallowed. Conversely an error other than \<open>Aborted\<close> that the caller receives
  was thrown by a task that settled while the flag was not set. In particular
  (P6), with 12 segments whose first five tasks do not fail, a request placed at
  the instant between the end of the first batch and the start of the second
  gives \<open>Aborted\<close>, and so no buffer at all.
\<close>

theorem cancellation_at_batch_boundary:
  "BATCH_SIZE = 5
   \<and> (\<forall>k. BATCH_SIZE * k < length segs \<longrightarrow> aborted W (startOf W (length segs) k) \<longrightarrow>
         (\<forall>p < BATCH_SIZE * k. \<forall>e. failsWith W px p (segs ! p) e
             \<longrightarrow> aborted W (settleInstant W (length segs) p)) \<longrightarrow>
         downloadSegments W px segs = Inl Aborted)
   \<and> (\<forall>e. downloadSegments W px segs = Inl e \<longrightarrow> e \<noteq> Aborted \<longrightarrow>
         (\<exists>p < length segs. failsWith W px p (segs ! p) e
             \<and> \<not> aborted W (settleInstant W (length segs) p)))
   \<and> (length segs = 12 \<longrightarrow> (\<forall>p < 5. \<forall>e. \<not> failsWith W px p (segs ! p) e) \<longrightarrow>
         abortAt W = Some (startOf W 12 1) \<longrightarrow>
         downloadSegments W px segs = Inl Aborted)"
proof (intro conjI allI impI)
  show "BATCH_SIZE = 5" by (simp add: BATCH_SIZE_def)
next
  fix k
  assume "BATCH_SIZE * k < length segs" "aborted W (startOf W (length segs) k)"
    "\<forall>p < BATCH_SIZE * k. \<forall>e. failsWith W px p (segs ! p) e
        \<longrightarrow> aborted W (settleInstant W (length segs) p)"
  from batchLoop_cancel [OF this, of 0] show "downloadSegments W px segs = Inl Aborted"
    by (simp add: downloadSegments_def)
next
  fix e
  assume "downloadSegments W px segs = Inl e" "e \<noteq> Aborted"
  then show "\<exists>p < length segs. failsWith W px p (segs ! p) e
             \<and> \<not> aborted W (settleInstant W (length segs) p)"
    using batchLoop_error [of W px segs 0 _ e] by (simp add: downloadSegments_def)
next
  assume l: "length segs = 12" and ok: "\<forall>p < 5. \<forall>e. \<not> failsWith W px p (segs ! p) e"
    and a: "abortAt W = Some (startOf W 12 1)"
  have 1: "BATCH_SIZE * 1 < length segs" by (simp add: l BATCH_SIZE_def)
  have 2: "aborted W (startOf W (length segs) 1)" by (simp add: aborted_def a l)
  have 3: "\<forall>p < BATCH_SIZE * 1. \<forall>e. failsWith W px p (segs ! p) e
        \<longrightarrow> aborted W (settleInstant W (length segs) p)"
    using ok by (simp add: BATCH_SIZE_def)
  from batchLoop_cancel [OF 1 2 3, of 0] show "downloadSegments W px segs = Inl Aborted"
    by (simp add: downloadSegments_def)
qed

text \<open>
  Sample data: a plaintext segment at index \<open>i\<close>, and a world in which every
  segment fetch succeeds, every task takes one instant, and nobody calls
  \<^verbatim>\<open>abort()\<close>.
\<close>

definition plainSegment :: "nat \<Rightarrow> Segment" where
  "plainSegment i =
     \<lparr>url = ''https://cdn.example/path/seg.ts'', index = i, encryption = None,
      seqId = Some (Fin (of_nat i)), isInitSegment = None\<rparr>"

definition quietWorld :: world where
  "quietWorld =
     \<lparr>segFetch = (\<lambda>p u. Response True [of_nat p]),
      keyFetch = (\<lambda>p u. Threw),
      importKey = (\<lambda>b. None),
      aesCbcDecrypt = (\<lambda>k v d. None),
      latency = (\<lambda>p. 1),
      abortAt = None\<rparr>"

text \<open>
  P6 at twelve plaintext segments with \<^verbatim>\<open>abort()\<close> at instant 2, the start of the
  second batch; and a failed fetch without cancellation, which is what the caller
  receives.
\<close>

theorem cancellation_at_batch_boundary_witness:
  "downloadSegments (quietWorld\<lparr>abortAt := Some 2\<rparr>) False (map plainSegment [0 ..< 12]) = Inl Aborted
   \<and> downloadSegments
        (quietWorld\<lparr>segFetch := (\<lambda>p u. Response (p \<noteq> 1) [of_nat p])\<rparr>) False
        (map plainSegment [0 ..< 3]) = Inl (SegmentFetchFailed 1)
   \<and> (\<exists>p < 3. failsWith (quietWorld\<lparr>segFetch := (\<lambda>p u. Response (p \<noteq> 1) [of_nat p])\<rparr>) False p
                 (map plainSegment [0 ..< 3] ! p) (SegmentFetchFailed 1))"
proof -
  let ?W = "quietWorld\<lparr>abortAt := Some 2\<rparr>"
  let ?segs = "map plainSegment [0 ..< 12]"
  let ?V = "quietWorld\<lparr>segFetch := (\<lambda>p u. Response (p \<noteq> 1) [of_nat p])\<rparr>"
  let ?three = "map plainSegment [0 ..< 3]"
  have l: "length ?segs = 12" by simp
  have ok: "\<forall>p < 5. \<forall>e. \<not> failsWith ?W False p (?segs ! p) e"
    by (simp add: failsWith_def runTask_def quietWorld_def plainSegment_def)
  have a: "abortAt ?W = Some (startOf ?W 12 1)" by code_simp
  have P6: "downloadSegments ?W False ?segs = Inl Aborted"
    using cancellation_at_batch_boundary [of ?segs ?W False] l ok a by blast
  have r: "downloadSegments ?V False ?three = Inl (SegmentFetchFailed 1)" by code_simp
  have "\<exists>p < length ?three. failsWith ?V False p (?three ! p) (SegmentFetchFailed 1)
             \<and> \<not> aborted ?V (settleInstant ?V (length ?three) p)"
    using cancellation_at_batch_boundary [of ?three ?V False] r by blast
  then have "\<exists>p < 3. failsWith ?V False p (?three ! p) (SegmentFetchFailed 1)" by auto
  with P6 r show ?thesis by blast
qed

text \<open>
  Claim C1, as amended. A segment whose encryption method is not \<^verbatim>\<open>AES-128\<close>
  (for instance \<^verbatim>\<open>SAMPLE-AES\<close>) does not go through the decrypt path: its task is
  the fetch alone, the fetched bytes are stored as they are, and the task never
  fails with \<open>DecryptionFailed\<close>. A download of that one segment whose fetch
  succeeds returns the fetched bytes.
\<close>

theorem non_aes128_stored_undecrypted:
  assumes "encryption seg = Some enc" and "method enc \<noteq> ''AES-128''"
  shows "runTask W useProxy p seg cache =
           (case segFetch W p (fetchUrl useProxy (url seg)) of
              Threw \<Rightarrow> (Inl TransportError, cache)
            | Response ok body \<Rightarrow>
                if ok then (Inr body, cache) else (Inl (SegmentFetchFailed (index seg)), cache))
         \<and> fst (runTask W useProxy p seg cache) \<noteq> Inl DecryptionFailed
         \<and> (segFetch W 0 (fetchUrl useProxy (url seg)) = Response True body \<longrightarrow> \<not> aborted W 0 \<longrightarrow>
              downloadSegments W useProxy [seg] = Inr (storeAt [None] (index seg) body))"
proof -
  have rt: "runTask W useProxy p seg cache =
           (case segFetch W p (fetchUrl useProxy (url seg)) of
              Threw \<Rightarrow> (Inl TransportError, cache)
            | Response ok body \<Rightarrow>
                if ok then (Inr body, cache) else (Inl (SegmentFetchFailed (index seg)), cache))"
    for p cache
    using assms by (simp add: runTask_def split: fetch_result.splits)
  have nd: "fst (runTask W useProxy p seg cache) \<noteq> Inl DecryptionFailed"
    by (simp add: rt split: fetch_result.splits)
  have dl: "downloadSegments W useProxy [seg] = Inr (storeAt [None] (index seg) body)"
    if f: "segFetch W 0 (fetchUrl useProxy (url seg)) = Response True body" and na: "\<not> aborted W 0"
  proof -
    have t: "runTask W useProxy 0 seg c = (Inr body, c)" for c
      by (simp add: rt f)
    show ?thesis
      unfolding downloadSegments_def
      by (subst batchLoop.simps, simp add: na BATCH_SIZE_def t, subst batchLoop.simps, simp)
  qed
  from rt nd dl show ?thesis by blast
qed

text \<open>
  A \<^verbatim>\<open>SAMPLE-AES\<close> segment, and a world whose key can be fetched and imported and
  whose cipher rejects every input.
\<close>

definition sampleAesSegment :: Segment where
  "sampleAesSegment =
     \<lparr>url = ''https://cdn.example/path/seg0.ts'', index = 0,
      encryption = Some \<lparr>method = ''SAMPLE-AES'',
                         uri = Some ''https://cdn.example/path/k.bin'', iv = None\<rparr>,
      seqId = Some (Fin 0), isInitSegment = None\<rparr>"

definition keyedWorld :: world where
  "keyedWorld =
     \<lparr>segFetch = (\<lambda>p u. Response True [of_nat p]),
      keyFetch = (\<lambda>p u. Response True (replicate 16 0)),
      importKey = (\<lambda>b. Some b),
      aesCbcDecrypt = (\<lambda>k v d. None),
      latency = (\<lambda>p. 1),
      abortAt = None\<rparr>"

theorem non_aes128_stored_undecrypted_witness:
  "downloadSegments quietWorld False [sampleAesSegment] = Inr [Some [0]]
   \<and> fst (runTask quietWorld False 0 sampleAesSegment (\<lambda>_. None)) \<noteq> Inl DecryptionFailed"
proof -
  have e: "encryption sampleAesSegment = Some \<lparr>method = ''SAMPLE-AES'',
                         uri = Some ''https://cdn.example/path/k.bin'', iv = None\<rparr>"
    by (simp add: sampleAesSegment_def)
  have m: "method \<lparr>method = ''SAMPLE-AES'',
                         uri = Some ''https://cdn.example/path/k.bin'', iv = None :: bytes option\<rparr> \<noteq> ''AES-128''"
    by simp
  have f: "segFetch quietWorld 0 (fetchUrl False (url sampleAesSegment)) = Response True [0]"
    by (simp add: quietWorld_def)
  have na: "\<not> aborted quietWorld 0" by (simp add: aborted_def quietWorld_def)
  have s: "storeAt [None] (index sampleAesSegment) [0 :: byte] = [Some [0]]"
    by (simp add: storeAt_def sampleAesSegment_def)
  from non_aes128_stored_undecrypted [OF e m, of quietWorld False 0 "\<lambda>_. None" "[0]"] f na s
  show ?thesis by simp
qed

text \<open>
  The counterexample to C1 as stated: where the cipher rejects every input, the
  \<^verbatim>\<open>SAMPLE-AES\<close> segment is returned undecrypted and without an error, while the
  same segment tagged \<^verbatim>\<open>AES-128\<close> fails with \<open>DecryptionFailed\<close>.
\<close>

theorem sample_aes_counterexample:
  "encryption sampleAesSegment
     = Some \<lparr>method = ''SAMPLE-AES'', uri = Some ''https://cdn.example/path/k.bin'', iv = None\<rparr>
   \<and> downloadSegments keyedWorld False [sampleAesSegment] = Inr [Some [0]]
   \<and> downloadSegments keyedWorld False
        [sampleAesSegment\<lparr>encryption :=
           Some \<lparr>method = ''AES-128'', uri = Some ''https://cdn.example/path/k.bin'',
                  iv = None\<rparr>\<rparr>]
      = Inl DecryptionFailed"
  by code_simp

text \<open>
  Claim C3 at a failing input. Seven plaintext segments; \<^verbatim>\<open>abort()\<close> is called at
  instant 3, while the second and last batch is in flight, and the two fetches of
  that batch reject. Both errors are swallowed, no batch follows, and the caller
  receives an array with five buffers and two holes instead of an error.
\<close>

theorem abort_in_last_batch_returns_holes:
  "downloadSegments
     (quietWorld\<lparr>segFetch := (\<lambda>p u. if p < 5 then Response True [of_nat p] else Threw),
                 latency := (\<lambda>p. if p < 5 then 1 else 2),
                 abortAt := Some 3\<rparr>)
     False (map plainSegment [0 ..< 7])
   = Inr [Some [0], Some [1], Some [2], Some [3], Some [4], None, None]"
  by code_simp

end
